theory Spec2Isabelle
  imports Main "HOL-Library.Sublist"
begin

section \<open>Session lifecycle management on a key-value store\<close>

text \<open>
  A model of \<^verbatim>\<open>src/app/redis/RedisManagement.js\<close>: the class \<^verbatim>\<open>RedisSessionMgmt\<close>, which
  keeps each session as two keys of a Redis store, a record with the maximum lifetime and
  an idle marker with the idle timeout, and which cleans up on the store's expiration
  events. Every \<^verbatim>\<open>await\<close> is run to completion before the next statement, so a method
  is a function from the state of the world to its result and the new state.
\<close>

subsection \<open>JSON values, \<^verbatim>\<open>JSON.stringify\<close> and \<^verbatim>\<open>JSON.parse\<close>\<close>

text \<open>
  Session payloads are JavaScript values. The values modelled here are a fragment of
  them: numbers are integers, written in full decimal digits, characters have 8 bits, and
  an object is the list of its members in the order of the text, duplicates included, of
  which a property read takes the last. \<^verbatim>\<open>JSON.parse\<close> as modelled rejects every
  text outside the fragment (a fraction, an exponent, a unicode escape above
  \<^verbatim>\<open>00ff\<close>). What the class does with any other payload is stated for an arbitrary
  type of payloads, with the two functions as parameters (see \<open>get_with\<close> and
  \<open>set_with\<close> below).
\<close>

datatype json =
    JNull
  | JBool bool
  | JNum int
  | JStr string
  | JArr "json list"
  | JObj "(string \<times> json) list"

definition hex_digit :: "nat \<Rightarrow> char" where
  "hex_digit n = char_of (if n mod 16 < 10 then 48 + n mod 16 else 87 + n mod 16)"

fun quote_char :: "char \<Rightarrow> string" where
  "quote_char c =
     (if c = CHR 0x22 then [CHR 0x5C, CHR 0x22]
      else if c = CHR 0x5C then [CHR 0x5C, CHR 0x5C]
      else if c = CHR 0x08 then [CHR 0x5C, CHR ''b'']
      else if c = CHR 0x09 then [CHR 0x5C, CHR ''t'']
      else if c = CHR 0x0A then [CHR 0x5C, CHR ''n'']
      else if c = CHR 0x0C then [CHR 0x5C, CHR ''f'']
      else if c = CHR 0x0D then [CHR 0x5C, CHR ''r'']
      else if (of_char c :: nat) < 32
        then [CHR 0x5C, CHR ''u'', CHR ''0'', CHR ''0'',
              hex_digit (of_char c div 16), hex_digit (of_char c mod 16)]
      else [c])"

definition quote :: "string \<Rightarrow> string" where
  "quote s = [CHR 0x22] @ concat (map quote_char s) @ [CHR 0x22]"

fun digits :: "nat \<Rightarrow> string" where
  "digits n = (if n < 10 then [hex_digit n] else digits (n div 10) @ [hex_digit (n mod 10)])"

declare digits.simps [simp del]

definition number_text :: "int \<Rightarrow> string" where
  "number_text i = (if i < 0 then CHR ''-'' # digits (nat (- i)) else digits (nat i))"

fun join :: "'a list \<Rightarrow> 'a list list \<Rightarrow> 'a list" where
  "join sep [] = []"
| "join sep [x] = x"
| "join sep (x # y # ys) = x @ sep @ join sep (y # ys)"

fun JSON_stringify :: "json \<Rightarrow> string" where
  "JSON_stringify JNull = ''null''"
| "JSON_stringify (JBool b) = (if b then ''true'' else ''false'')"
| "JSON_stringify (JNum i) = number_text i"
| "JSON_stringify (JStr s) = quote s"
| "JSON_stringify (JArr xs) = ''['' @ join '','' (map JSON_stringify xs) @ '']''"
| "JSON_stringify (JObj kvs) =
     ''{'' @ join '','' (map (\<lambda>(k, v). quote k @ '':'' @ JSON_stringify v) kvs) @ ''}''"


datatype token =
    TLBrace | TRBrace | TLBrack | TRBrack | TComma | TColon
  | TStr string | TNum int | TNull | TTrue | TFalse

datatype lmode =
    Plain
  | InNum bool string
  | InWord string
  | InStr string
  | InEsc string
  | InHex string string

definition is_ws :: "char \<Rightarrow> bool" where
  "is_ws c = (c = CHR 0x20 \<or> c = CHR 0x09 \<or> c = CHR 0x0A \<or> c = CHR 0x0D)"

definition is_digit :: "char \<Rightarrow> bool" where
  "is_digit c = (48 \<le> (of_char c :: nat) \<and> (of_char c :: nat) \<le> 57)"

definition is_lower :: "char \<Rightarrow> bool" where
  "is_lower c = (97 \<le> (of_char c :: nat) \<and> (of_char c :: nat) \<le> 122)"

definition hex_val :: "char \<Rightarrow> nat option" where
  "hex_val c =
     (let n = (of_char c :: nat) in
      if 48 \<le> n \<and> n \<le> 57 then Some (n - 48)
      else if 97 \<le> n \<and> n \<le> 102 then Some (n - 87)
      else if 65 \<le> n \<and> n \<le> 70 then Some (n - 55)
      else None)"

definition digit_val :: "char \<Rightarrow> nat" where
  "digit_val c = of_char c - 48"

definition number_of_digits :: "string \<Rightarrow> nat" where
  "number_of_digits ds = foldl (\<lambda>a c. 10 * a + digit_val c) 0 ds"

definition number_token :: "bool \<Rightarrow> string \<Rightarrow> token option" where
  "number_token neg ds =
     (if ds = [] \<or> (hd ds = CHR ''0'' \<and> tl ds \<noteq> []) then None
      else Some (TNum (if neg then - int (number_of_digits ds) else int (number_of_digits ds))))"

definition word_token :: "string \<Rightarrow> token option" where
  "word_token w =
     (if w = ''null'' then Some TNull
      else if w = ''true'' then Some TTrue
      else if w = ''false'' then Some TFalse
      else None)"

text \<open>Tokens are collected in reverse.\<close>

definition flush :: "lmode \<Rightarrow> token list \<Rightarrow> token list option" where
  "flush m ts =
     (case m of
        Plain \<Rightarrow> Some ts
      | InNum neg ds \<Rightarrow> map_option (\<lambda>t. t # ts) (number_token neg ds)
      | InWord w \<Rightarrow> map_option (\<lambda>t. t # ts) (word_token w)
      | _ \<Rightarrow> None)"

definition plain :: "char \<Rightarrow> token list \<Rightarrow> (lmode \<times> token list) option" where
  "plain c ts =
     (if is_ws c then Some (Plain, ts)
      else if c = CHR ''{'' then Some (Plain, TLBrace # ts)
      else if c = CHR ''}'' then Some (Plain, TRBrace # ts)
      else if c = CHR ''['' then Some (Plain, TLBrack # ts)
      else if c = CHR '']'' then Some (Plain, TRBrack # ts)
      else if c = CHR '','' then Some (Plain, TComma # ts)
      else if c = CHR '':'' then Some (Plain, TColon # ts)
      else if c = CHR 0x22 then Some (InStr [], ts)
      else if c = CHR ''-'' then Some (InNum True [], ts)
      else if is_digit c then Some (InNum False [c], ts)
      else if is_lower c then Some (InWord [c], ts)
      else None)"

definition unescape :: "char \<Rightarrow> char option" where
  "unescape c =
     (if c = CHR 0x22 \<or> c = CHR 0x5C \<or> c = CHR ''/'' then Some c
      else if c = CHR ''b'' then Some (CHR 0x08)
      else if c = CHR ''f'' then Some (CHR 0x0C)
      else if c = CHR ''n'' then Some (CHR 0x0A)
      else if c = CHR ''r'' then Some (CHR 0x0D)
      else if c = CHR ''t'' then Some (CHR 0x09)
      else None)"

definition lex_step :: "(lmode \<times> token list) option \<Rightarrow> char \<Rightarrow> (lmode \<times> token list) option" where
  "lex_step st c =
     (case st of
        None \<Rightarrow> None
      | Some (m, ts) \<Rightarrow>
          (case m of
             Plain \<Rightarrow> plain c ts
           | InNum neg ds \<Rightarrow>
               (if is_digit c then Some (InNum neg (ds @ [c]), ts)
                else (case flush m ts of None \<Rightarrow> None | Some ts' \<Rightarrow> plain c ts'))
           | InWord w \<Rightarrow>
               (if is_lower c then Some (InWord (w @ [c]), ts)
                else (case flush m ts of None \<Rightarrow> None | Some ts' \<Rightarrow> plain c ts'))
           | InStr acc \<Rightarrow>
               (if c = CHR 0x22 then Some (Plain, TStr acc # ts)
                else if c = CHR 0x5C then Some (InEsc acc, ts)
                else if (of_char c :: nat) < 32 then None
                else Some (InStr (acc @ [c]), ts))
           | InEsc acc \<Rightarrow>
               (if c = CHR ''u'' then Some (InHex acc [], ts)
                else (case unescape c of
                        None \<Rightarrow> None
                      | Some d \<Rightarrow> Some (InStr (acc @ [d]), ts)))
           | InHex acc hs \<Rightarrow>
               (case hex_val c of
                  None \<Rightarrow> None
                | Some h \<Rightarrow>
                    (if length hs < 3 then Some (InHex acc (hs @ [c]), ts)
                     else (let n = foldl (\<lambda>a x. 16 * a + (case hex_val x of Some v \<Rightarrow> v | None \<Rightarrow> 0)) 0 (hs @ [c])
                           in if n < 256 then Some (InStr (acc @ [char_of n]), ts) else None)))))"

definition tokenize :: "string \<Rightarrow> token list option" where
  "tokenize s =
     (case foldl lex_step (Some (Plain, [])) s of
        None \<Rightarrow> None
      | Some (m, ts) \<Rightarrow> map_option rev (flush m ts))"

datatype frame =
    FArr "json list"
  | FObj "(string \<times> json) list"
  | FKey "(string \<times> json) list" string

datatype pmode =
    MValue | MArrFirst | MArrNext | MObjFirst | MKey | MColon | MObjNext | MDone json

type_synonym pstate = "(pmode \<times> frame list) option"

definition reduce :: "json \<Rightarrow> frame list \<Rightarrow> pstate" where
  "reduce v stk =
     (case stk of
        [] \<Rightarrow> Some (MDone v, [])
      | FArr xs # r \<Rightarrow> Some (MArrNext, FArr (xs @ [v]) # r)
      | FKey kvs k # r \<Rightarrow> Some (MObjNext, FObj (kvs @ [(k, v)]) # r)
      | FObj kvs # r \<Rightarrow> None)"

definition value_token :: "token \<Rightarrow> frame list \<Rightarrow> pstate" where
  "value_token t stk =
     (case t of
        TStr s \<Rightarrow> reduce (JStr s) stk
      | TNum n \<Rightarrow> reduce (JNum n) stk
      | TNull \<Rightarrow> reduce JNull stk
      | TTrue \<Rightarrow> reduce (JBool True) stk
      | TFalse \<Rightarrow> reduce (JBool False) stk
      | TLBrack \<Rightarrow> Some (MArrFirst, FArr [] # stk)
      | TLBrace \<Rightarrow> Some (MObjFirst, FObj [] # stk)
      | _ \<Rightarrow> None)"

definition close_array :: "frame list \<Rightarrow> pstate" where
  "close_array stk = (case stk of FArr xs # r \<Rightarrow> reduce (JArr xs) r | _ \<Rightarrow> None)"

definition close_object :: "frame list \<Rightarrow> pstate" where
  "close_object stk = (case stk of FObj kvs # r \<Rightarrow> reduce (JObj kvs) r | _ \<Rightarrow> None)"

definition key_token :: "token \<Rightarrow> frame list \<Rightarrow> pstate" where
  "key_token t stk =
     (case (t, stk) of
        (TStr k, FObj kvs # r) \<Rightarrow> Some (MColon, FKey kvs k # r)
      | _ \<Rightarrow> None)"

definition parse_step :: "pstate \<Rightarrow> token \<Rightarrow> pstate" where
  "parse_step st t =
     (case st of
        None \<Rightarrow> None
      | Some (m, stk) \<Rightarrow>
          (case m of
             MValue \<Rightarrow> value_token t stk
           | MArrFirst \<Rightarrow> (if t = TRBrack then close_array stk else value_token t stk)
           | MArrNext \<Rightarrow>
               (if t = TComma then Some (MValue, stk)
                else if t = TRBrack then close_array stk else None)
           | MObjFirst \<Rightarrow> (if t = TRBrace then close_object stk else key_token t stk)
           | MKey \<Rightarrow> key_token t stk
           | MColon \<Rightarrow> (if t = TColon then Some (MValue, stk) else None)
           | MObjNext \<Rightarrow>
               (if t = TComma then Some (MKey, stk)
                else if t = TRBrace then close_object stk else None)
           | MDone v \<Rightarrow> None))"

datatype error = SyntaxError | TypeError | StoreOperationFailure | HookFailure

definition JSON_parse :: "string \<Rightarrow> error + json" where
  "JSON_parse s =
     (case tokenize s of
        None \<Rightarrow> Inl SyntaxError
      | Some ts \<Rightarrow>
          (case foldl parse_step (Some (MValue, [])) ts of
             Some (MDone v, []) \<Rightarrow> Inr v
           | _ \<Rightarrow> Inl SyntaxError))"


subsection \<open>The key-value store client\<close>

text \<open>
  The store is the injected collaborator behind \<^verbatim>\<open>redisPub\<close>. Its four commands follow
  Redis: \<^verbatim>\<open>GET\<close> reads the value or null, \<^verbatim>\<open>SET\<close> writes the value and drops any
  time-to-live, \<^verbatim>\<open>EXPIRE\<close> gives an existing key a time-to-live (a missing key is left
  alone, a time-to-live of zero removes the key), \<^verbatim>\<open>DEL\<close> removes the key. Every
  interaction with a collaborator is appended to \<open>trace\<close>, so that the order of the
  calls can be stated. A command can fail: \<open>outage w n\<close> says that the command issued
  when \<open>n\<close> interactions have been made is rejected by the client.
\<close>

record entry =
  content :: string
  ttl :: "nat option"

datatype event =
    GET string
  | SET string string
  | EXPIRE string nat
  | DEL string
  | HOOK "json option" "json option" "json option"

record world =
  store :: "string \<rightharpoonup> entry"
  trace :: "event list"
  outage :: "nat \<Rightarrow> bool"

type_synonym 'a io = "world \<Rightarrow> (error + 'a) \<times> world"

definition return_io :: "'a \<Rightarrow> 'a io" where
  "return_io x w = (Inr x, w)"

definition throw_io :: "error \<Rightarrow> 'a io" where
  "throw_io e w = (Inl e, w)"

definition bind_io :: "'a io \<Rightarrow> ('a \<Rightarrow> 'b io) \<Rightarrow> 'b io" where
  "bind_io f g w = (case f w of (Inl e, w') \<Rightarrow> (Inl e, w') | (Inr x, w') \<Rightarrow> g x w')"

definition issue :: "event \<Rightarrow> world \<Rightarrow> world" where
  "issue e w = w\<lparr>trace := trace w @ [e]\<rparr>"

definition down :: "world \<Rightarrow> bool" where
  "down w = outage w (length (trace w))"

definition redisPub_get :: "string \<Rightarrow> string option io" where
  "redisPub_get k w =
     (if down w then (Inl StoreOperationFailure, issue (GET k) w)
      else (Inr (map_option content (store w k)), issue (GET k) w))"

definition redisPub_set :: "string \<Rightarrow> string \<Rightarrow> unit io" where
  "redisPub_set k v w =
     (if down w then (Inl StoreOperationFailure, issue (SET k v) w)
      else (Inr (), issue (SET k v) (w\<lparr>store := (store w)(k \<mapsto> \<lparr>content = v, ttl = None\<rparr>)\<rparr>)))"

definition redisPub_expire :: "string \<Rightarrow> nat \<Rightarrow> unit io" where
  "redisPub_expire k t w =
     (if down w then (Inl StoreOperationFailure, issue (EXPIRE k t) w)
      else (Inr (), issue (EXPIRE k t)
              (case store w k of
                 None \<Rightarrow> w
               | Some e \<Rightarrow>
                   (if t = 0 then w\<lparr>store := (store w)(k := None)\<rparr>
                    else w\<lparr>store := (store w)(k \<mapsto> e\<lparr>ttl := Some t\<rparr>)\<rparr>))))"

definition redisPub_del :: "string \<Rightarrow> unit io" where
  "redisPub_del k w =
     (if down w then (Inl StoreOperationFailure, issue (DEL k) w)
      else (Inr (), issue (DEL k) (w\<lparr>store := (store w)(k := None)\<rparr>)))"

text \<open>
  Time passing in the store: after \<open>n\<close> seconds every key whose time-to-live is at most
  \<open>n\<close> has expired, and the other time-to-lives have shrunk by \<open>n\<close>.
\<close>

definition elapse :: "nat \<Rightarrow> world \<Rightarrow> world" where
  "elapse n w =
     w\<lparr>store := (\<lambda>k. case store w k of
                        None \<Rightarrow> None
                      | Some e \<Rightarrow>
                          (case ttl e of
                             None \<Rightarrow> Some e
                           | Some t \<Rightarrow> if t \<le> n then None else Some (e\<lparr>ttl := Some (t - n)\<rparr>)))\<rparr>"

subsection \<open>RedisSessionMgmt\<close>

text \<open>
  \<^verbatim>\<open>sessionRedisConfig\<close>: each value may be missing. The constructor reads each one
  with \<^verbatim>\<open>||\<close>, so a missing value, the number 0 and the empty string all give the
  default. Times are whole seconds.
\<close>

record session_config =
  redis_max_life_time_sec :: "nat option"
  redis_max_idle_time_sec :: "nat option"
  redis_max_login_return_time_sec :: "nat option"
  redis_key_prefix_name_max_life :: "string option"
  redis_key_prefix_name_max_idle :: "string option"

datatype outcome = Resolved | Rejected

type_synonym hook = "json option \<Rightarrow> json option \<Rightarrow> json option \<Rightarrow> outcome"

record mgmt =
  maxLifetime :: nat
  maxIdleTime :: nat
  maxLoginReturnTime :: nat
  prefixSession :: string
  prefixSessionIdle :: string
  prefixSessionIdleSize :: nat
  sessionIdleValue :: string
  beforeDestroy :: "hook option"

definition or_number :: "nat option \<Rightarrow> nat \<Rightarrow> nat" where
  "or_number c d = (case c of None \<Rightarrow> d | Some v \<Rightarrow> if v = 0 then d else v)"

definition or_string :: "string option \<Rightarrow> string \<Rightarrow> string" where
  "or_string c d = (case c of None \<Rightarrow> d | Some v \<Rightarrow> if v = [] then d else v)"

definition RedisSessionMgmt :: "session_config \<Rightarrow> mgmt" where
  "RedisSessionMgmt cfg =
     \<lparr>maxLifetime = or_number (redis_max_life_time_sec cfg) 86400,
      maxIdleTime = or_number (redis_max_idle_time_sec cfg) 1800,
      maxLoginReturnTime = or_number (redis_max_login_return_time_sec cfg) 120,
      prefixSession = or_string (redis_key_prefix_name_max_life cfg) ''session:'',
      prefixSessionIdle = or_string (redis_key_prefix_name_max_idle cfg) ''session-idle:'',
      prefixSessionIdleSize =
        length (or_string (redis_key_prefix_name_max_idle cfg) ''session-idle:''),
      sessionIdleValue = ''empty'',
      beforeDestroy = None\<rparr>"

definition setFuncToCallBeforeDestroy :: "hook \<Rightarrow> mgmt \<Rightarrow> mgmt" where
  "setFuncToCallBeforeDestroy prom m = m\<lparr>beforeDestroy := Some prom\<rparr>"

text \<open>
  \<^verbatim>\<open>get\<close>: the record is fetched only when the idle marker exists. \<^verbatim>\<open>JSON.parse\<close>
  turns its argument into a string first, so the null of a missing record is parsed as
  the text \<^verbatim>\<open>null\<close>.

  \<^verbatim>\<open>JSON.parse\<close>, \<^verbatim>\<open>JSON.stringify\<close> and the value \<^verbatim>\<open>null\<close> belong to the
  JavaScript runtime, not to this class. \<open>get_with\<close> and \<open>set_with\<close> are the two
  methods with these three as parameters, for any type \<open>'p\<close> of payloads; \<open>get\<close> and
  \<open>set_session\<close> are the methods on the JSON values above, where \<open>JNull\<close> is
  JavaScript's \<^verbatim>\<open>null\<close>.
\<close>

definition get_with :: "(string \<Rightarrow> error + 'p) \<Rightarrow> 'p \<Rightarrow> mgmt \<Rightarrow> string \<Rightarrow> 'p io" where
  "get_with parse null_value m sid =
     (let keyIdle = prefixSessionIdle m @ sid;
          key = prefixSession m @ sid
      in bind_io (redisPub_get keyIdle) (\<lambda>exist.
           if exist \<noteq> None then
             bind_io (redisPub_get key) (\<lambda>data.
               case parse (case data of None \<Rightarrow> ''null'' | Some s \<Rightarrow> s) of
                 Inl err \<Rightarrow> throw_io err
               | Inr result \<Rightarrow> return_io result)
           else return_io null_value))"

definition get :: "mgmt \<Rightarrow> string \<Rightarrow> json io" where
  "get m sid = get_with JSON_parse JNull m sid"

definition set_with :: "('p \<Rightarrow> string) \<Rightarrow> mgmt \<Rightarrow> string \<Rightarrow> 'p \<Rightarrow> unit io" where
  "set_with stringify m sid sess =
     (let v = stringify sess
      in bind_io (redisPub_set (prefixSession m @ sid) v) (\<lambda>_.
         bind_io (redisPub_expire (prefixSession m @ sid) (maxLifetime m)) (\<lambda>_.
         bind_io (redisPub_set (prefixSessionIdle m @ sid) (sessionIdleValue m)) (\<lambda>_.
         redisPub_expire (prefixSessionIdle m @ sid) (maxLoginReturnTime m)))))"

definition set_session :: "mgmt \<Rightarrow> string \<Rightarrow> json \<Rightarrow> unit io" where
  "set_session m sid sess = set_with JSON_stringify m sid sess"

text \<open>
  Reading a property of a parsed value: an object gives the value of its last binding of
  the name, any other value but null gives \<^verbatim>\<open>undefined\<close> (\<open>None\<close>).
  \<open>truthy\<close> is JavaScript's conversion to a boolean in \<^verbatim>\<open>&&\<close>.
\<close>

definition property :: "json \<Rightarrow> string \<Rightarrow> json option" where
  "property v k = (case v of JObj kvs \<Rightarrow> map_of (rev kvs) k | _ \<Rightarrow> None)"

fun truthy :: "json option \<Rightarrow> bool" where
  "truthy None = False"
| "truthy (Some JNull) = False"
| "truthy (Some (JBool b)) = b"
| "truthy (Some (JNum n)) = (n \<noteq> 0)"
| "truthy (Some (JStr s)) = (s \<noteq> [])"
| "truthy (Some (JArr xs)) = True"
| "truthy (Some (JObj kvs)) = True"

text \<open>
  Calling \<^verbatim>\<open>this.beforeDestroy\<close>: a TypeError when no function was registered, otherwise
  the call is made and awaited, and a rejection is thrown on.
\<close>

definition call_beforeDestroy ::
  "mgmt \<Rightarrow> json option \<Rightarrow> json option \<Rightarrow> json option \<Rightarrow> unit io" where
  "call_beforeDestroy m realm accessToken refreshToken w =
     (case beforeDestroy m of
        None \<Rightarrow> (Inl TypeError, w)
      | Some prom \<Rightarrow>
          (case prom realm accessToken refreshToken of
             Resolved \<Rightarrow> (Inr (), issue (HOOK realm accessToken refreshToken) w)
           | Rejected \<Rightarrow> (Inl HookFailure, issue (HOOK realm accessToken refreshToken) w)))"

text \<open>\<^verbatim>\<open>destroy\<close>: destructuring the null that \<^verbatim>\<open>get\<close> returned is a TypeError.\<close>

definition destroy :: "mgmt \<Rightarrow> string \<Rightarrow> unit io" where
  "destroy m sid =
     bind_io (get m sid) (\<lambda>sess.
       if sess = JNull then throw_io TypeError
       else
         (let accessToken = property sess ''accessToken'';
              realm = property sess ''realm'';
              refreshToken = property sess ''refreshToken''
          in bind_io
               (if truthy accessToken \<and> truthy realm \<and> truthy refreshToken
                then call_beforeDestroy m realm accessToken refreshToken
                else return_io ())
               (\<lambda>_. bind_io (redisPub_del (prefixSession m @ sid)) (\<lambda>_.
                      redisPub_del (prefixSessionIdle m @ sid)))))"

text \<open>\<^verbatim>\<open>onExpiration\<close> catches whatever \<^verbatim>\<open>destroy\<close> throws and only logs it.\<close>

definition onExpiration :: "mgmt \<Rightarrow> string \<Rightarrow> string \<Rightarrow> unit io" where
  "onExpiration m channel key w =
     (if take (prefixSessionIdleSize m) key = prefixSessionIdle m then
        (let sid = drop (prefixSessionIdleSize m) key
         in case destroy m sid w of (r, w') \<Rightarrow> (Inr (), w'))
      else (Inr (), w))"

definition restartIdleTTL :: "mgmt \<Rightarrow> string \<Rightarrow> unit io" where
  "restartIdleTTL m sid = redisPub_expire (prefixSessionIdle m @ sid) (maxIdleTime m)"

subsection \<open>Worlds, instances and scenarios used by the theorems\<close>

text \<open>A world whose store client never rejects a command.\<close>

definition reliable :: "world \<Rightarrow> bool" where
  "reliable w = (\<forall>n. \<not> outage w n)"

text \<open>The configuration with every value missing, and the empty, reliable store.\<close>

definition default_config :: session_config where
  "default_config =
     \<lparr>redis_max_life_time_sec = None,
      redis_max_idle_time_sec = None,
      redis_max_login_return_time_sec = None,
      redis_key_prefix_name_max_life = None,
      redis_key_prefix_name_max_idle = None\<rparr>"

definition fresh :: world where
  "fresh = \<lparr>store = Map.empty, trace = [], outage = (\<lambda>n. False)\<rparr>"

text \<open>
  The scenario of the specification: a session \<^verbatim>\<open>u1\<close> with the credential triple is
  set, 121 seconds pass, and the expiration event of its idle marker is delivered.
\<close>

definition credentials :: json where
  "credentials =
     JObj [(''accessToken'', JStr ''tok1''), (''realm'', JStr ''master''),
           (''refreshToken'', JStr ''ref1'')]"

definition manager :: mgmt where
  "manager = setFuncToCallBeforeDestroy (\<lambda>realm accessToken refreshToken. Resolved)
               (RedisSessionMgmt default_config)"

definition logged_in :: world where
  "logged_in = snd (set_session manager ''u1'' credentials fresh)"

definition idle_expired :: world where
  "idle_expired = elapse 121 logged_in"

text \<open>
  A configuration with every value given, and the world after a session is set on the
  instance built from it.
\<close>

definition tuned_config :: session_config where
  "tuned_config =
     \<lparr>redis_max_life_time_sec = Some 3600,
      redis_max_idle_time_sec = Some 600,
      redis_max_login_return_time_sec = Some 60,
      redis_key_prefix_name_max_life = Some ''s:'',
      redis_key_prefix_name_max_idle = Some ''i:''\<rparr>"

definition tuned_logged_in :: world where
  "tuned_logged_in = snd (set_session (RedisSessionMgmt tuned_config) ''u1'' credentials fresh)"

text \<open>The same session when its record key alone has been removed from the store.\<close>

definition record_lost :: world where
  "record_lost = logged_in\<lparr>store := (store logged_in)(''session:u1'' := None)\<rparr>"

text \<open>An instance whose eviction hook rejects, and the world after the expiration event.\<close>

definition manager_rejecting :: mgmt where
  "manager_rejecting = setFuncToCallBeforeDestroy (\<lambda>realm accessToken refreshToken. Rejected)
                         (RedisSessionMgmt default_config)"

definition after_expiration :: world where
  "after_expiration =
     snd (onExpiration manager ''__keyevent@0__:expired'' ''session-idle:u1'' idle_expired)"

fun is_hook_call :: "event \<Rightarrow> bool" where
  "is_hook_call (HOOK realm accessToken refreshToken) = True"
| "is_hook_call e = False"

text \<open>
  The record keys and the idle-marker keys do not meet when neither prefix starts with
  the other, as with the default prefixes.
\<close>

definition keyspaces_disjoint :: "mgmt \<Rightarrow> bool" where
  "keyspaces_disjoint m =
     (\<not> prefix (prefixSession m) (prefixSessionIdle m)
      \<and> \<not> prefix (prefixSessionIdle m) (prefixSession m))"

text \<open>
  A history of an instance: calls of its methods, notifications delivered to its listener
  and time passing in the store, run from left to right.
\<close>

datatype call =
    Call_set string json
  | Call_get string
  | Call_destroy string
  | Call_restartIdleTTL string
  | Call_setFuncToCallBeforeDestroy hook
  | Notify string string
  | Wait nat

fun step :: "mgmt \<times> world \<Rightarrow> call \<Rightarrow> mgmt \<times> world" where
  "step (m, w) (Call_set sid d) = (m, snd (set_session m sid d w))"
| "step (m, w) (Call_get sid) = (m, snd (get m sid w))"
| "step (m, w) (Call_destroy sid) = (m, snd (destroy m sid w))"
| "step (m, w) (Call_restartIdleTTL sid) = (m, snd (restartIdleTTL m sid w))"
| "step (m, w) (Call_setFuncToCallBeforeDestroy prom) = (setFuncToCallBeforeDestroy prom m, w)"
| "step (m, w) (Notify channel key) = (m, snd (onExpiration m channel key w))"
| "step (m, w) (Wait n) = (m, elapse n w)"

definition run :: "mgmt \<times> world \<Rightarrow> call list \<Rightarrow> mgmt \<times> world" where
  "run st calls = foldl step st calls"

fun sets :: "string \<Rightarrow> call \<Rightarrow> bool" where
  "sets sid (Call_set s d) = (s = sid)"
| "sets sid c = False"

definition never_set :: "string \<Rightarrow> call list \<Rightarrow> bool" where
  "never_set sid calls = (\<not> list_ex (sets sid) calls)"

text \<open>A history in which \<^verbatim>\<open>u1\<close> is never set.\<close>

definition history :: "call list" where
  "history =
     [Call_setFuncToCallBeforeDestroy (\<lambda>realm accessToken refreshToken. Resolved),
      Call_set ''u2'' credentials, Wait 60, Call_restartIdleTTL ''u1'', Call_get ''u2'',
      Notify ''__keyevent@0__:expired'' ''session-idle:u1'', Call_destroy ''u2'']"

text \<open>
  The tokens of the text that \<^verbatim>\<open>JSON.stringify\<close> writes for a value, and the lexer
  states in which exactly the tokens \<open>ts\<close> (in reverse) have been read once the pending
  number or word is closed.
\<close>

fun tokens :: "json \<Rightarrow> token list" where
  "tokens JNull = [TNull]"
| "tokens (JBool b) = [if b then TTrue else TFalse]"
| "tokens (JNum i) = [TNum i]"
| "tokens (JStr s) = [TStr s]"
| "tokens (JArr xs) = TLBrack # join [TComma] (map tokens xs) @ [TRBrack]"
| "tokens (JObj kvs) =
     TLBrace # join [TComma] (map (\<lambda>(k, v). TStr k # TColon # tokens v) kvs) @ [TRBrace]"

definition ready :: "(lmode \<times> token list) option \<Rightarrow> token list \<Rightarrow> bool" where
  "ready st ts =
     (case st of
        None \<Rightarrow> False
      | Some (m, ts0) \<Rightarrow>
          (case m of
             Plain \<Rightarrow> ts0 = ts
           | InNum neg ds \<Rightarrow> flush m ts0 = Some ts
           | InWord w \<Rightarrow> flush m ts0 = Some ts
           | _ \<Rightarrow> False))"

section \<open>Properties\<close>

subsection \<open>\<^verbatim>\<open>JSON.parse\<close> reads back what \<^verbatim>\<open>JSON.stringify\<close> writes\<close>

lemma hex_digit_small:
  "k < 16 \<Longrightarrow> hex_val (hex_digit k) = Some k"
  by (simp add: hex_digit_def hex_val_def Let_def)

lemma hex_digit_decimal:
  "k < 10 \<Longrightarrow> is_digit (hex_digit k) \<and> digit_val (hex_digit k) = k
     \<and> (0 < k \<longrightarrow> hex_digit k \<noteq> CHR ''0'')"
proof -
  assume k: "k < 10"
  then have o: "(of_char (hex_digit k) :: nat) = 48 + k"
    by (simp add: hex_digit_def)
  have "hex_digit k \<noteq> CHR ''0''" if "0 < k"
  proof
    assume "hex_digit k = CHR ''0''"
    then have "(of_char (hex_digit k) :: nat) = of_char (CHR ''0'')"
      by simp
    then show False
      using o that by simp
  qed
  then show ?thesis
    using o k by (simp add: is_digit_def digit_val_def)
qed

lemma digits_all: "c \<in> set (digits n) \<Longrightarrow> is_digit c"
proof (induction n rule: digits.induct)
  case (1 n)
  show ?case
  proof (cases "n < 10")
    case True
    then show ?thesis
      using "1.prems" hex_digit_decimal [of n] by (subst (asm) digits.simps) simp
  next
    case False
    then show ?thesis
      using "1.prems" "1.IH" hex_digit_decimal [of "n mod 10"]
      by (subst (asm) digits.simps) auto
  qed
qed

lemma digits_nonempty: "digits n \<noteq> []"
  by (subst digits.simps) simp

lemma number_of_digits_snoc:
  "number_of_digits (ds @ [c]) = 10 * number_of_digits ds + digit_val c"
  by (simp add: number_of_digits_def)

lemma digits_value: "number_of_digits (digits n) = n"
proof (induction n rule: digits.induct)
  case (1 n)
  show ?case
  proof (cases "n < 10")
    case True
    then show ?thesis
      using hex_digit_decimal [of n]
      by (subst digits.simps) (simp add: number_of_digits_def)
  next
    case False
    then show ?thesis
      using "1.IH" hex_digit_decimal [of "n mod 10"]
      by (subst digits.simps) (simp add: number_of_digits_snoc)
  qed
qed

lemma digits_leading: "0 < n \<Longrightarrow> hd (digits n) \<noteq> CHR ''0''"
proof (induction n rule: digits.induct)
  case (1 n)
  show ?case
  proof (cases "n < 10")
    case True
    then show ?thesis
      using "1.prems" hex_digit_decimal [of n] by (subst digits.simps) simp
  next
    case False
    then have "0 < n div 10" by simp
    then show ?thesis
      using False "1.IH" digits_nonempty [of "n div 10"]
      by (subst digits.simps) simp
  qed
qed

lemma digits_single: "n < 10 \<Longrightarrow> tl (digits n) = []"
  by (subst digits.simps) simp

lemma number_token_digits:
  "number_token neg (digits n) = Some (TNum (if neg then - int n else int n))"
proof (cases "n = 0")
  case True
  then show ?thesis
    using digits_single [of n] digits_nonempty [of n] digits_value [of n]
    by (simp add: number_token_def)
next
  case False
  then show ?thesis
    using digits_leading [of n] digits_nonempty [of n] digits_value [of n]
    by (simp add: number_token_def)
qed


lemma digit_properties:
  "is_digit c \<Longrightarrow> \<not> is_ws c \<and> \<not> is_lower c \<and> c \<noteq> CHR ''-'' \<and> c \<noteq> CHR 0x22
     \<and> c \<noteq> CHR ''{'' \<and> c \<noteq> CHR ''}'' \<and> c \<noteq> CHR ''['' \<and> c \<noteq> CHR '']''
     \<and> c \<noteq> CHR '','' \<and> c \<noteq> CHR '':''"
  by (auto simp add: is_digit_def is_ws_def is_lower_def)

lemma lex_digits:
  "\<forall>c \<in> set ds. is_digit c \<Longrightarrow>
   foldl lex_step (Some (InNum neg acc, ts)) ds = Some (InNum neg (acc @ ds), ts)"
  by (induction ds arbitrary: acc) (simp_all add: lex_step_def)

lemma lex_number:
  "\<exists>neg ds. foldl lex_step (Some (Plain, ts)) (number_text i) = Some (InNum neg ds, ts)
     \<and> number_token neg ds = Some (TNum i)"
proof (cases "i < 0")
  case True
  have "foldl lex_step (Some (Plain, ts)) (number_text i) =
        foldl lex_step (Some (InNum True [], ts)) (digits (nat (- i)))"
    using True by (simp add: number_text_def lex_step_def plain_def is_ws_def)
  also have "\<dots> = Some (InNum True (digits (nat (- i))), ts)"
    using lex_digits [of "digits (nat (- i))" True "[]" ts] digits_all by simp
  finally show ?thesis
    using True number_token_digits [of True "nat (- i)"] by auto
next
  case False
  obtain d ds where d: "digits (nat i) = d # ds"
    using digits_nonempty [of "nat i"] by (cases "digits (nat i)") auto
  have a: "is_digit d" "\<forall>c \<in> set ds. is_digit c"
    using digits_all [of _ "nat i"] d by auto
  have "foldl lex_step (Some (Plain, ts)) (number_text i) =
        foldl lex_step (Some (InNum False [d], ts)) ds"
    using False d a(1) digit_properties [of d]
    by (simp add: number_text_def lex_step_def plain_def)
  also have "\<dots> = Some (InNum False (digits (nat i)), ts)"
    using lex_digits [OF a(2), of False "[d]" ts] d by simp
  finally show ?thesis
    using False number_token_digits [of False "nat i"] by auto
qed

lemma lex_quote_char:
  "foldl lex_step (Some (InStr acc, ts)) (quote_char c) = Some (InStr (acc @ [c]), ts)"
proof -
  consider "c = CHR 0x22" | "c = CHR 0x5C" | "c = CHR 0x08" | "c = CHR 0x09" | "c = CHR 0x0A"
    | "c = CHR 0x0C" | "c = CHR 0x0D"
    | "c \<noteq> CHR 0x22" "c \<noteq> CHR 0x5C" "c \<noteq> CHR 0x08" "c \<noteq> CHR 0x09" "c \<noteq> CHR 0x0A"
      "c \<noteq> CHR 0x0C" "c \<noteq> CHR 0x0D" "(of_char c :: nat) < 32"
    | "c \<noteq> CHR 0x22" "c \<noteq> CHR 0x5C" "\<not> (of_char c :: nat) < 32"
    by blast
  then show ?thesis
  proof cases
    case 8
    let ?n = "of_char c :: nat"
    have h: "hex_val (hex_digit (?n div 16)) = Some (?n div 16)"
            "hex_val (hex_digit (?n mod 16)) = Some (?n mod 16)"
      using 8(8) by (simp_all add: hex_digit_small)
    have z: "hex_val (CHR ''0'') = Some 0"
      by (simp add: hex_val_def)
    have "quote_char c = [CHR 0x5C, CHR ''u'', CHR ''0'', CHR ''0'',
              hex_digit (?n div 16), hex_digit (?n mod 16)]"
      using 8 by simp
    then show ?thesis
      using h z 8(8) by (simp add: lex_step_def)
  next
    case 9
    then have "quote_char c = [c]"
      by auto
    then show ?thesis
      using 9 by (simp add: lex_step_def)
  qed (simp_all add: lex_step_def unescape_def)
qed

lemma lex_quoted_chars:
  "foldl lex_step (Some (InStr acc, ts)) (concat (map quote_char s)) = Some (InStr (acc @ s), ts)"
proof (induction s arbitrary: acc)
  case Nil
  then show ?case by simp
next
  case (Cons c s)
  show ?case
    using Cons.IH [of "acc @ [c]"] by (simp add: lex_quote_char del: quote_char.simps)
qed

lemma lex_quote:
  "foldl lex_step (Some (Plain, ts)) (quote s) = Some (Plain, TStr s # ts)"
  using lex_quoted_chars [of "[]" ts s]
  by (simp add: quote_def lex_step_def plain_def is_ws_def)


lemma ready_plain [simp]: "ready (Some (Plain, ts0)) ts = (ts0 = ts)"
  by (simp add: ready_def)

lemma ready_delimiter:
  "ready st ts \<Longrightarrow> \<not> is_digit c \<Longrightarrow> \<not> is_lower c \<Longrightarrow> lex_step st c = plain c ts"
  by (auto simp add: ready_def lex_step_def split: option.splits lmode.splits)

lemma ready_flush:
  "ready st ts \<Longrightarrow> (case st of None \<Rightarrow> None | Some (m, ts0) \<Rightarrow> flush m ts0) = Some ts"
  by (auto simp add: ready_def flush_def split: option.splits lmode.splits)

lemma ready_comma:
  "ready st ts \<Longrightarrow> lex_step st (CHR '','') = Some (Plain, TComma # ts)"
  by (simp add: ready_delimiter is_digit_def is_lower_def plain_def is_ws_def)

lemma ready_bracket:
  "ready st ts \<Longrightarrow> lex_step st (CHR '']'') = Some (Plain, TRBrack # ts)"
  by (simp add: ready_delimiter is_digit_def is_lower_def plain_def is_ws_def)

lemma ready_brace:
  "ready st ts \<Longrightarrow> lex_step st (CHR ''}'') = Some (Plain, TRBrace # ts)"
  by (simp add: ready_delimiter is_digit_def is_lower_def plain_def is_ws_def)

lemma lex_join:
  assumes "\<And>s t ts. (s, t) \<in> set items \<Longrightarrow>
             ready (foldl lex_step (Some (Plain, ts)) s) (rev t @ ts)"
      and "items \<noteq> []"
  shows "ready (foldl lex_step (Some (Plain, ts)) (join '','' (map fst items)))
           (rev (join [TComma] (map snd items)) @ ts)"
  using assms
proof (induction items arbitrary: ts)
  case Nil
  then show ?case by simp
next
  case (Cons item items)
  obtain s t where item: "item = (s, t)"
    by (cases item) auto
  have first: "ready (foldl lex_step (Some (Plain, ts)) s) (rev t @ ts)"
    using Cons.prems(1) [of s t ts] item by simp
  show ?case
  proof (cases items)
    case Nil
    then show ?thesis using first item by simp
  next
    case (Cons item' items')
    have rest: "ready (foldl lex_step (Some (Plain, TComma # rev t @ ts))
                         (join '','' (map fst items)))
                  (rev (join [TComma] (map snd items)) @ TComma # rev t @ ts)"
      using Cons.IH [of "TComma # rev t @ ts"] Cons.prems(1) Cons by simp
    show ?thesis
      using rest ready_comma [OF first] item Cons by simp
  qed
qed

lemma lex_word:
  "foldl lex_step (Some (Plain, ts)) ''null'' = Some (InWord ''null'', ts)"
  "foldl lex_step (Some (Plain, ts)) ''true'' = Some (InWord ''true'', ts)"
  "foldl lex_step (Some (Plain, ts)) ''false'' = Some (InWord ''false'', ts)"
  by (simp_all add: lex_step_def plain_def is_ws_def is_digit_def is_lower_def)

lemma lex_value:
  "ready (foldl lex_step (Some (Plain, ts)) (JSON_stringify v)) (rev (tokens v) @ ts)"
proof (induction v arbitrary: ts)
  case JNull
  then show ?case
    by (simp add: lex_word ready_def flush_def word_token_def del: foldl_Cons)
next
  case (JBool b)
  then show ?case
    by (simp add: lex_word ready_def flush_def word_token_def del: foldl_Cons)
next
  case (JNum i)
  then show ?case
    using lex_number [of ts i] by (auto simp add: ready_def flush_def)
next
  case (JStr s)
  then show ?case
    by (simp add: lex_quote)
next
  case (JArr xs)
  show ?case
  proof (cases xs)
    case Nil
    then show ?thesis
      by (simp add: lex_step_def plain_def is_ws_def)
  next
    case (Cons y ys)
    let ?items = "map (\<lambda>x. (JSON_stringify x, tokens x)) xs"
    have items: "map fst ?items = map JSON_stringify xs" "map snd ?items = map tokens xs"
      by (simp_all add: comp_def)
    have "ready (foldl lex_step (Some (Plain, TLBrack # ts)) (join '','' (map fst ?items)))
            (rev (join [TComma] (map snd ?items)) @ TLBrack # ts)"
    proof (rule lex_join)
      show "?items \<noteq> []" using Cons by simp
    next
      fix s t ts' assume "(s, t) \<in> set ?items"
      then show "ready (foldl lex_step (Some (Plain, ts')) s) (rev t @ ts')"
        using JArr.IH by auto
    qed
    then have "ready (foldl lex_step (Some (Plain, TLBrack # ts))
                        (join '','' (map JSON_stringify xs)))
                 (rev (join [TComma] (map tokens xs)) @ TLBrack # ts)"
      by (simp only: items)
    then show ?thesis
      by (simp add: ready_bracket lex_step_def [of "Some (Plain, ts)"] plain_def is_ws_def)
  qed
next
  case (JObj kvs)
  show ?case
  proof (cases kvs)
    case Nil
    then show ?thesis
      by (simp add: lex_step_def plain_def is_ws_def)
  next
    case (Cons y ys)
    let ?items = "map (\<lambda>(k, v). (quote k @ '':'' @ JSON_stringify v, TStr k # TColon # tokens v)) kvs"
    have items:
      "map fst ?items = map (\<lambda>(k, v). quote k @ '':'' @ JSON_stringify v) kvs"
      "map snd ?items = map (\<lambda>(k, v). TStr k # TColon # tokens v) kvs"
      by (simp_all add: comp_def case_prod_unfold)
    have "ready (foldl lex_step (Some (Plain, TLBrace # ts)) (join '','' (map fst ?items)))
            (rev (join [TComma] (map snd ?items)) @ TLBrace # ts)"
    proof (rule lex_join)
      show "?items \<noteq> []" using Cons by simp
    next
      fix s t ts' assume "(s, t) \<in> set ?items"
      then obtain k v where kv: "(k, v) \<in> set kvs" "s = quote k @ '':'' @ JSON_stringify v"
        "t = TStr k # TColon # tokens v"
        by auto
      have "ready (foldl lex_step (Some (Plain, TColon # TStr k # ts')) (JSON_stringify v))
              (rev (tokens v) @ TColon # TStr k # ts')"
        using JObj.IH [of "(k, v)" v] kv(1) by simp
      then show "ready (foldl lex_step (Some (Plain, ts')) s) (rev t @ ts')"
        by (simp add: kv lex_quote lex_step_def [of "Some (Plain, TStr k # ts')"] plain_def is_ws_def)
    qed
    then have "ready (foldl lex_step (Some (Plain, TLBrace # ts))
                        (join '','' (map (\<lambda>(k, v). quote k @ '':'' @ JSON_stringify v) kvs)))
                 (rev (join [TComma] (map (\<lambda>(k, v). TStr k # TColon # tokens v) kvs)) @ TLBrace # ts)"
      by (simp only: items)
    then show ?thesis
      by (simp add: ready_brace lex_step_def [of "Some (Plain, ts)"] plain_def is_ws_def)
  qed
qed

lemma tokenize_stringify: "tokenize (JSON_stringify v) = Some (tokens v)"
  using ready_flush [OF lex_value [of "[]" v]]
  by (auto simp add: tokenize_def split: option.splits)


lemma parse_step_none [simp]: "parse_step None t = None"
  by (simp add: parse_step_def)

lemma parse_failed [simp]: "foldl parse_step None ts = None"
  by (induction ts) simp_all

lemma parse_step_scalar:
  assumes "md = MValue \<or> md = MArrFirst"
  shows "parse_step (Some (md, stk)) TNull = reduce JNull stk"
    and "parse_step (Some (md, stk)) TTrue = reduce (JBool True) stk"
    and "parse_step (Some (md, stk)) TFalse = reduce (JBool False) stk"
    and "parse_step (Some (md, stk)) (TNum i) = reduce (JNum i) stk"
    and "parse_step (Some (md, stk)) (TStr s) = reduce (JStr s) stk"
    and "parse_step (Some (md, stk)) TLBrack = Some (MArrFirst, FArr [] # stk)"
    and "parse_step (Some (md, stk)) TLBrace = Some (MObjFirst, FObj [] # stk)"
  using assms by (auto simp add: parse_step_def value_token_def)

lemma parse_step_array [simp]:
  "parse_step (Some (MArrFirst, FArr [] # stk)) TRBrack = reduce (JArr []) stk"
  "parse_step (Some (MArrNext, FArr xs # stk)) TRBrack = reduce (JArr xs) stk"
  "parse_step (Some (MArrNext, stk)) TComma = Some (MValue, stk)"
  by (simp_all add: parse_step_def close_array_def)

lemma parse_step_object [simp]:
  "parse_step (Some (MObjFirst, FObj [] # stk)) TRBrace = reduce (JObj []) stk"
  "parse_step (Some (MObjNext, FObj kvs # stk)) TRBrace = reduce (JObj kvs) stk"
  "parse_step (Some (MObjNext, stk)) TComma = Some (MKey, stk)"
  "parse_step (Some (MColon, stk)) TColon = Some (MValue, stk)"
  "parse_step (Some (MObjFirst, FObj acc # stk)) (TStr k) = Some (MColon, FKey acc k # stk)"
  "parse_step (Some (MKey, FObj acc # stk)) (TStr k) = Some (MColon, FKey acc k # stk)"
  by (simp_all add: parse_step_def close_object_def key_token_def)

lemma parse_elements:
  assumes "\<And>x stk rest md. x \<in> set xs \<Longrightarrow> md = MValue \<or> md = MArrFirst \<Longrightarrow>
             foldl parse_step (Some (md, stk)) (tokens x @ rest) =
             foldl parse_step (reduce x stk) rest"
      and "xs \<noteq> []"
      and "md = MValue \<or> md = MArrFirst"
  shows "foldl parse_step (Some (md, FArr acc # stk))
           (join [TComma] (map tokens xs) @ TRBrack # rest) =
         foldl parse_step (reduce (JArr (acc @ xs)) stk) rest"
  using assms
proof (induction xs arbitrary: acc md)
  case Nil
  then show ?case by simp
next
  case (Cons x xs)
  have first: "foldl parse_step (Some (md, FArr acc # stk)) (tokens x @ r) =
               foldl parse_step (Some (MArrNext, FArr (acc @ [x]) # stk)) r" for r
    using Cons.prems(1) [of x md "FArr acc # stk" r] Cons.prems(3)
    by (simp add: reduce_def)
  show ?case
  proof (cases xs)
    case Nil
    then show ?thesis
      using first [of "TRBrack # rest"] by simp
  next
    case (Cons y ys)
    have "foldl parse_step (Some (MValue, FArr (acc @ [x]) # stk))
            (join [TComma] (map tokens xs) @ TRBrack # rest) =
          foldl parse_step (reduce (JArr ((acc @ [x]) @ xs)) stk) rest"
      using Cons.IH [of MValue "acc @ [x]"] Cons.prems(1) Cons by simp
    then show ?thesis
      using first [of "TComma # join [TComma] (map tokens xs) @ TRBrack # rest"] Cons
      by simp
  qed
qed

lemma join_Cons: "xs \<noteq> [] \<Longrightarrow> join sep (x # xs) = x @ sep @ join sep xs"
  by (cases xs) simp_all

lemma parse_members:
  assumes "\<And>k v stk rest md. (k, v) \<in> set kvs \<Longrightarrow> md = MValue \<or> md = MArrFirst \<Longrightarrow>
             foldl parse_step (Some (md, stk)) (tokens v @ rest) =
             foldl parse_step (reduce v stk) rest"
      and "kvs \<noteq> []"
      and "md = MObjFirst \<or> md = MKey"
  shows "foldl parse_step (Some (md, FObj acc # stk))
           (join [TComma] (map (\<lambda>(k, v). TStr k # TColon # tokens v) kvs) @ TRBrace # rest) =
         foldl parse_step (reduce (JObj (acc @ kvs)) stk) rest"
  using assms
proof (induction kvs arbitrary: acc md)
  case Nil
  then show ?case by simp
next
  case (Cons kv kvs)
  let ?f = "\<lambda>(k, v). TStr k # TColon # tokens v"
  obtain k v where kv: "kv = (k, v)"
    by (cases kv) auto
  have "foldl parse_step (Some (MValue, FKey acc k # stk)) (tokens v @ r) =
        foldl parse_step (Some (MObjNext, FObj (acc @ [(k, v)]) # stk)) r" for r
    using Cons.prems(1) [of k v MValue "FKey acc k # stk" r] kv
    by (simp add: reduce_def)
  then have first: "foldl parse_step (Some (md, FObj acc # stk)) (TStr k # TColon # tokens v @ r) =
               foldl parse_step (Some (MObjNext, FObj (acc @ [(k, v)]) # stk)) r" for r
    using Cons.prems(3) by auto
  show ?case
  proof (cases "kvs = []")
    case True
    then show ?thesis
      using first [of "TRBrace # rest"] kv by simp
  next
    case False
    let ?R = "join [TComma] (map ?f kvs) @ TRBrace # rest"
    have eq: "join [TComma] (map ?f (kv # kvs)) @ TRBrace # rest =
              TStr k # TColon # tokens v @ TComma # ?R"
      using False kv by (simp add: join_Cons)
    have "foldl parse_step (Some (md, FObj acc # stk))
            (join [TComma] (map ?f (kv # kvs)) @ TRBrace # rest) =
          foldl parse_step (Some (MObjNext, FObj (acc @ [(k, v)]) # stk)) (TComma # ?R)"
      by (simp only: eq first)
    also have "\<dots> = foldl parse_step (Some (MKey, FObj (acc @ [(k, v)]) # stk)) ?R"
      by simp
    also have "\<dots> = foldl parse_step (reduce (JObj ((acc @ [(k, v)]) @ kvs)) stk) rest"
    proof (rule Cons.IH)
      show "kvs \<noteq> []" by (rule False)
      show "MKey = MObjFirst \<or> MKey = MKey" by simp
    next
      fix k' v' stk' rest' md'
      assume "(k', v') \<in> set kvs" and "md' = MValue \<or> md' = MArrFirst"
      then show "foldl parse_step (Some (md', stk')) (tokens v' @ rest') =
                 foldl parse_step (reduce v' stk') rest'"
        using Cons.prems(1) [of k' v' md' stk' rest'] by simp
    qed
    finally show ?thesis
      using kv by simp
  qed
qed

lemma parse_value:
  "md = MValue \<or> md = MArrFirst \<Longrightarrow>
   foldl parse_step (Some (md, stk)) (tokens v @ rest) = foldl parse_step (reduce v stk) rest"
proof (induction v arbitrary: md stk rest)
  case JNull
  then show ?case by (simp add: parse_step_scalar)
next
  case (JBool b)
  then show ?case by (simp add: parse_step_scalar)
next
  case (JNum i)
  then show ?case by (simp add: parse_step_scalar)
next
  case (JStr s)
  then show ?case by (simp add: parse_step_scalar)
next
  case (JArr xs)
  have "open": "parse_step (Some (md, stk)) TLBrack = Some (MArrFirst, FArr [] # stk)"
    using JArr.prems by (rule parse_step_scalar)
  show ?case
  proof (cases xs)
    case Nil
    then show ?thesis
      using "open" by simp
  next
    case (Cons y ys)
    have "foldl parse_step (Some (MArrFirst, FArr [] # stk))
            (join [TComma] (map tokens xs) @ TRBrack # rest) =
          foldl parse_step (reduce (JArr ([] @ xs)) stk) rest"
      by (rule parse_elements) (use JArr.IH Cons in auto)
    then show ?thesis
      using "open" by simp
  qed
next
  case (JObj kvs)
  have "open": "parse_step (Some (md, stk)) TLBrace = Some (MObjFirst, FObj [] # stk)"
    using JObj.prems by (rule parse_step_scalar)
  show ?case
  proof (cases kvs)
    case Nil
    then show ?thesis
      using "open" by simp
  next
    case (Cons y ys)
    have "foldl parse_step (Some (MObjFirst, FObj [] # stk))
            (join [TComma] (map (\<lambda>(k, v). TStr k # TColon # tokens v) kvs) @ TRBrace # rest) =
          foldl parse_step (reduce (JObj ([] @ kvs)) stk) rest"
    proof (rule parse_members)
      show "kvs \<noteq> []" using Cons by simp
      show "MObjFirst = MObjFirst \<or> MObjFirst = MKey" by simp
    next
      fix k v stk' rest' md'
      assume "(k, v) \<in> set kvs" and "md' = MValue \<or> md' = MArrFirst"
      then show "foldl parse_step (Some (md', stk')) (tokens v @ rest') =
                 foldl parse_step (reduce v stk') rest'"
        using JObj.IH [of "(k, v)" v md' stk' rest'] by simp
    qed
    then show ?thesis
      using "open" by simp
  qed
qed

lemma JSON_roundtrip: "JSON_parse (JSON_stringify v) = Inr v"
  using parse_value [of MValue "[]" v "[]"]
  by (simp add: JSON_parse_def tokenize_stringify reduce_def)

subsection \<open>The store commands\<close>

lemma reliable_not_down: "reliable w \<Longrightarrow> \<not> down w"
  by (simp add: reliable_def down_def)

lemma reliable_issue [simp]: "reliable (issue e w) = reliable w"
  by (simp add: reliable_def issue_def)

lemma reliable_store_update [simp]: "reliable (w\<lparr>store := s\<rparr>) = reliable w"
  by (simp add: reliable_def)

lemma store_issue [simp]: "store (issue e w) = store w"
  by (simp add: issue_def)

lemma trace_issue [simp]: "trace (issue e w) = trace w @ [e]"
  by (simp add: issue_def)

lemma outage_issue [simp]: "outage (issue e w) = outage w"
  by (simp add: issue_def)

lemma redisPub_get_ok:
  "reliable w \<Longrightarrow>
   redisPub_get k w = (Inr (map_option content (store w k)), issue (GET k) w)"
  by (simp add: redisPub_get_def reliable_not_down)

lemma redisPub_set_ok:
  "reliable w \<Longrightarrow>
   redisPub_set k v w =
     (Inr (), issue (SET k v) (w\<lparr>store := (store w)(k \<mapsto> \<lparr>content = v, ttl = None\<rparr>)\<rparr>))"
  by (simp add: redisPub_set_def reliable_not_down)

lemma redisPub_expire_ok:
  "reliable w \<Longrightarrow> 0 < t \<Longrightarrow>
   redisPub_expire k t w =
     (Inr (), issue (EXPIRE k t)
        (w\<lparr>store := (case store w k of
                         None \<Rightarrow> store w
                       | Some e \<Rightarrow> (store w)(k \<mapsto> e\<lparr>ttl := Some t\<rparr>))\<rparr>))"
  by (simp add: redisPub_expire_def reliable_not_down split: option.splits)

lemma redisPub_del_ok:
  "reliable w \<Longrightarrow>
   redisPub_del k w = (Inr (), issue (DEL k) (w\<lparr>store := (store w)(k := None)\<rparr>))"
  by (simp add: redisPub_del_def reliable_not_down)

lemma redisPub_expire_outage [simp]: "outage (snd (redisPub_expire k t w)) = outage w"
  by (simp add: redisPub_expire_def split: option.splits)

lemma redisPub_expire_fst: "reliable w \<Longrightarrow> fst (redisPub_expire k t w) = Inr ()"
  by (simp add: redisPub_expire_def reliable_not_down)

lemma redisPub_expire_trace [simp]:
  "trace (snd (redisPub_expire k t w)) = trace w @ [EXPIRE k t]"
  by (simp add: redisPub_expire_def split: option.splits)

lemma get_trace:
  "trace (snd (get m sid w)) =
     trace w @ (if store w (prefixSessionIdle m @ sid) = None \<or> down w
                then [GET (prefixSessionIdle m @ sid)]
                else [GET (prefixSessionIdle m @ sid), GET (prefixSession m @ sid)])"
  by (simp add: get_def get_with_def bind_io_def redisPub_get_def return_io_def throw_io_def down_def issue_def
      split: sum.splits option.splits)

lemma get_store [simp]: "store (snd (get m sid w)) = store w"
  by (simp add: get_def get_with_def bind_io_def redisPub_get_def return_io_def throw_io_def
      split: sum.splits option.splits)

lemma get_absent:
  "store w (prefixSessionIdle m @ sid) = None \<Longrightarrow> \<not> down w \<Longrightarrow>
   get m sid w = (Inr JNull, issue (GET (prefixSessionIdle m @ sid)) w)"
  by (simp add: get_def get_with_def bind_io_def redisPub_get_def return_io_def)

subsection \<open>The constructor, \<^verbatim>\<open>set\<close> and \<^verbatim>\<open>get\<close>\<close>

lemma constructor_times [simp]:
  "0 < maxLifetime (RedisSessionMgmt cfg)"
  "0 < maxIdleTime (RedisSessionMgmt cfg)"
  "0 < maxLoginReturnTime (RedisSessionMgmt cfg)"
  by (simp_all add: RedisSessionMgmt_def or_number_def split: option.splits)

lemma constructor_prefix_size [simp]:
  "prefixSessionIdleSize (RedisSessionMgmt cfg) = length (prefixSessionIdle (RedisSessionMgmt cfg))"
  by (simp add: RedisSessionMgmt_def)

lemma constructor_idle_value [simp]:
  "sessionIdleValue (RedisSessionMgmt cfg) = ''empty''"
  by (simp add: RedisSessionMgmt_def)

lemma set_with_eq:
  "reliable w \<Longrightarrow>
   set_with stringify m sid d w =
     redisPub_expire (prefixSessionIdle m @ sid) (maxLoginReturnTime m)
       (issue (SET (prefixSessionIdle m @ sid) (sessionIdleValue m))
          ((snd (redisPub_expire (prefixSession m @ sid) (maxLifetime m)
                  (issue (SET (prefixSession m @ sid) (stringify d))
                     (w\<lparr>store := (store w)(prefixSession m @ sid \<mapsto>
                                     \<lparr>content = stringify d, ttl = None\<rparr>)\<rparr>))))
           \<lparr>store := (store (snd (redisPub_expire (prefixSession m @ sid) (maxLifetime m)
                  (issue (SET (prefixSession m @ sid) (stringify d))
                     (w\<lparr>store := (store w)(prefixSession m @ sid \<mapsto>
                                     \<lparr>content = stringify d, ttl = None\<rparr>)\<rparr>)))))
                (prefixSessionIdle m @ sid \<mapsto> \<lparr>content = sessionIdleValue m, ttl = None\<rparr>)\<rparr>))"
proof -
  assume r: "reliable w"
  let ?w1 = "issue (SET (prefixSession m @ sid) (stringify d))
               (w\<lparr>store := (store w)(prefixSession m @ sid \<mapsto>
                               \<lparr>content = stringify d, ttl = None\<rparr>)\<rparr>)"
  have r1: "reliable ?w1" using r by simp
  obtain w2 where e2: "redisPub_expire (prefixSession m @ sid) (maxLifetime m) ?w1 = (Inr (), w2)"
    using redisPub_expire_fst [OF r1] by (metis prod.collapse)
  have r2: "reliable w2"
    using r1 redisPub_expire_outage [of "prefixSession m @ sid" "maxLifetime m" ?w1] e2
    by (simp add: reliable_def)
  show ?thesis
    by (simp add: set_with_def bind_io_def Let_def redisPub_set_ok [OF r] e2
        redisPub_set_ok [OF r2])
qed

lemma set_with_ok:
  "reliable w \<Longrightarrow> fst (set_with stringify m sid d w) = Inr ()"
  by (simp add: set_with_eq redisPub_expire_fst reliable_def)

lemma set_with_trace:
  "reliable w \<Longrightarrow>
   trace (snd (set_with stringify m sid d w)) =
     trace w @ [SET (prefixSession m @ sid) (stringify d),
                EXPIRE (prefixSession m @ sid) (maxLifetime m),
                SET (prefixSessionIdle m @ sid) (sessionIdleValue m),
                EXPIRE (prefixSessionIdle m @ sid) (maxLoginReturnTime m)]"
  by (simp add: set_with_eq)

lemma set_with_outage [simp]:
  "outage (snd (set_with stringify m sid d w)) = outage w"
  by (simp add: set_with_def bind_io_def redisPub_set_def redisPub_expire_def
      Let_def split: option.splits)

lemma set_with_store_idle:
  "reliable w \<Longrightarrow> 0 < maxLoginReturnTime m \<Longrightarrow>
   store (snd (set_with stringify m sid d w)) (prefixSessionIdle m @ sid) =
     Some \<lparr>content = sessionIdleValue m, ttl = Some (maxLoginReturnTime m)\<rparr>"
  by (simp add: set_with_eq redisPub_expire_def reliable_def down_def)

lemma set_with_store_record:
  "reliable w \<Longrightarrow> 0 < maxLifetime m \<Longrightarrow> prefixSession m \<noteq> prefixSessionIdle m \<Longrightarrow>
   store (snd (set_with stringify m sid d w)) (prefixSession m @ sid) =
     Some \<lparr>content = stringify d, ttl = Some (maxLifetime m)\<rparr>"
  by (simp add: set_with_eq redisPub_expire_def reliable_def down_def)

lemma set_with_store_other:
  "k \<noteq> prefixSession m @ sid \<Longrightarrow> k \<noteq> prefixSessionIdle m @ sid \<Longrightarrow>
   store (snd (set_with stringify m sid d w)) k = store w k"
  by (simp add: set_with_def bind_io_def redisPub_set_def redisPub_expire_def
      Let_def split: option.splits)

lemma get_with_present:
  "reliable w \<Longrightarrow> store w (prefixSessionIdle m @ sid) = Some i \<Longrightarrow>
   fst (get_with parse null_value m sid w) =
     parse (case store w (prefixSession m @ sid) of None \<Rightarrow> ''null'' | Some e \<Rightarrow> content e)"
  by (simp add: get_with_def bind_io_def redisPub_get_def return_io_def throw_io_def
      reliable_def down_def issue_def split: option.splits sum.splits)

lemma set_session_ok:
  "reliable w \<Longrightarrow> fst (set_session m sid d w) = Inr ()"
  by (simp add: set_session_def set_with_ok)

lemma set_session_trace:
  "reliable w \<Longrightarrow>
   trace (snd (set_session m sid d w)) =
     trace w @ [SET (prefixSession m @ sid) (JSON_stringify d),
                EXPIRE (prefixSession m @ sid) (maxLifetime m),
                SET (prefixSessionIdle m @ sid) (sessionIdleValue m),
                EXPIRE (prefixSessionIdle m @ sid) (maxLoginReturnTime m)]"
  by (simp add: set_session_def set_with_trace)

lemma set_session_outage [simp]:
  "outage (snd (set_session m sid d w)) = outage w"
  by (simp add: set_session_def)

lemma set_session_store_idle:
  "reliable w \<Longrightarrow> 0 < maxLoginReturnTime m \<Longrightarrow>
   store (snd (set_session m sid d w)) (prefixSessionIdle m @ sid) =
     Some \<lparr>content = sessionIdleValue m, ttl = Some (maxLoginReturnTime m)\<rparr>"
  by (simp add: set_session_def set_with_store_idle)

lemma set_session_store_record:
  "reliable w \<Longrightarrow> 0 < maxLifetime m \<Longrightarrow> prefixSession m \<noteq> prefixSessionIdle m \<Longrightarrow>
   store (snd (set_session m sid d w)) (prefixSession m @ sid) =
     Some \<lparr>content = JSON_stringify d, ttl = Some (maxLifetime m)\<rparr>"
  by (simp add: set_session_def set_with_store_record)

lemma set_session_store_other:
  "k \<noteq> prefixSession m @ sid \<Longrightarrow> k \<noteq> prefixSessionIdle m @ sid \<Longrightarrow>
   store (snd (set_session m sid d w)) k = store w k"
  by (simp add: set_session_def set_with_store_other)

lemma get_present:
  "reliable w \<Longrightarrow> store w (prefixSessionIdle m @ sid) = Some i \<Longrightarrow>
   fst (get m sid w) =
     JSON_parse (case store w (prefixSession m @ sid) of None \<Rightarrow> ''null'' | Some e \<Rightarrow> content e)"
  by (simp add: get_def get_with_present)

lemma restartIdleTTL_eq:
  "\<not> down w \<Longrightarrow> 0 < maxIdleTime m \<Longrightarrow>
   restartIdleTTL m sid w =
     (Inr (), issue (EXPIRE (prefixSessionIdle m @ sid) (maxIdleTime m))
        (w\<lparr>store := (\<lambda>k. if k = prefixSessionIdle m @ sid
                           then map_option (\<lambda>e. e\<lparr>ttl := Some (maxIdleTime m)\<rparr>) (store w k)
                           else store w k)\<rparr>))"
  by (auto simp add: restartIdleTTL_def redisPub_expire_def issue_def fun_eq_iff
      split: option.splits intro!: world.equality)

subsection \<open>\<^verbatim>\<open>destroy\<close>\<close>

lemma reliable_trace_update [simp]: "reliable (w\<lparr>trace := s\<rparr>) = reliable w"
  by (simp add: reliable_def)

lemma redisPub_get_outage [simp]: "outage (snd (redisPub_get k w)) = outage w"
  by (simp add: redisPub_get_def)

lemma get_outage [simp]: "outage (snd (get m sid w)) = outage w"
  by (simp add: get_def get_with_def bind_io_def redisPub_get_def return_io_def throw_io_def
      split: sum.splits option.splits)

lemma get_reliable: "get m sid w = (r, w1) \<Longrightarrow> reliable w1 = reliable w"
  using get_outage [of m sid w] by (simp add: reliable_def)

lemma destroy_after_get:
  "get m sid w = (Inr sess, w1) \<Longrightarrow> sess \<noteq> JNull \<Longrightarrow>
   destroy m sid w =
     bind_io
       (if truthy (property sess ''accessToken'') \<and> truthy (property sess ''realm'')
           \<and> truthy (property sess ''refreshToken'')
        then call_beforeDestroy m (property sess ''realm'') (property sess ''accessToken'')
               (property sess ''refreshToken'')
        else return_io ())
       (\<lambda>_. bind_io (redisPub_del (prefixSession m @ sid)) (\<lambda>_.
              redisPub_del (prefixSessionIdle m @ sid))) w1"
  by (simp add: destroy_def bind_io_def Let_def)

lemma destroy_after_null:
  "get m sid w = (Inr JNull, w1) \<Longrightarrow> destroy m sid w = (Inl TypeError, w1)"
  by (simp add: destroy_def bind_io_def throw_io_def)

lemma deletes_eq:
  "reliable w \<Longrightarrow>
   bind_io (redisPub_del k1) (\<lambda>_. redisPub_del k2) w =
     (Inr (), issue (DEL k2) (issue (DEL k1) (w\<lparr>store := (store w)(k1 := None, k2 := None)\<rparr>)))"
  by (simp add: bind_io_def redisPub_del_ok issue_def)

lemma property_null [simp]: "property JNull k = None"
  by (simp add: property_def)

lemma destroy_resolved:
  assumes "get m sid w = (Inr sess, w1)" and "reliable w"
      and "truthy (property sess ''accessToken'')" and "truthy (property sess ''realm'')"
      and "truthy (property sess ''refreshToken'')"
      and "beforeDestroy m = Some prom"
      and "prom (property sess ''realm'') (property sess ''accessToken'')
             (property sess ''refreshToken'') = Resolved"
  shows "destroy m sid w =
     (Inr (), issue (DEL (prefixSessionIdle m @ sid)) (issue (DEL (prefixSession m @ sid))
        (issue (HOOK (property sess ''realm'') (property sess ''accessToken'')
                  (property sess ''refreshToken''))
           (w1\<lparr>store := (store w)(prefixSession m @ sid := None,
                                     prefixSessionIdle m @ sid := None)\<rparr>))))"
proof -
  have n: "sess \<noteq> JNull"
    using assms(3) by auto
  have r: "reliable w1"
    using get_reliable [OF assms(1)] assms(2) by simp
  have s: "store w1 = store w"
    using get_store [of m sid w] assms(1) by simp
  let ?h = "issue (HOOK (property sess ''realm'') (property sess ''accessToken'')
                  (property sess ''refreshToken'')) w1"
  have rh: "reliable ?h" using r by simp
  have d: "destroy m sid w =
      bind_io (redisPub_del (prefixSession m @ sid)) (\<lambda>_.
              redisPub_del (prefixSessionIdle m @ sid)) ?h"
    using assms(3-7)
    by (simp add: destroy_after_get [OF assms(1) n] bind_io_def call_beforeDestroy_def)
  show ?thesis
    unfolding d deletes_eq [OF rh] by (simp add: s issue_def)
qed

lemma destroy_rejected:
  assumes "get m sid w = (Inr sess, w1)"
      and "truthy (property sess ''accessToken'')" and "truthy (property sess ''realm'')"
      and "truthy (property sess ''refreshToken'')"
      and "beforeDestroy m = Some prom"
      and "prom (property sess ''realm'') (property sess ''accessToken'')
             (property sess ''refreshToken'') = Rejected"
  shows "destroy m sid w =
     (Inl HookFailure, issue (HOOK (property sess ''realm'') (property sess ''accessToken'')
                  (property sess ''refreshToken'')) w1)"
proof -
  have n: "sess \<noteq> JNull"
    using assms(2) by auto
  show ?thesis
    using assms(2-6)
    by (simp add: destroy_after_get [OF assms(1) n] bind_io_def call_beforeDestroy_def)
qed

lemma destroy_no_credentials:
  assumes "get m sid w = (Inr sess, w1)" and "reliable w" and "sess \<noteq> JNull"
      and "\<not> (truthy (property sess ''accessToken'') \<and> truthy (property sess ''realm'')
              \<and> truthy (property sess ''refreshToken''))"
  shows "destroy m sid w =
     (Inr (), issue (DEL (prefixSessionIdle m @ sid)) (issue (DEL (prefixSession m @ sid))
           (w1\<lparr>store := (store w)(prefixSession m @ sid := None,
                                     prefixSessionIdle m @ sid := None)\<rparr>)))"
proof -
  have r: "reliable w1"
    using get_reliable [OF assms(1)] assms(2) by simp
  have s: "store w1 = store w"
    using get_store [of m sid w] assms(1) by simp
  have "destroy m sid w =
     bind_io
       (if truthy (property sess ''accessToken'') \<and> truthy (property sess ''realm'')
           \<and> truthy (property sess ''refreshToken'')
        then call_beforeDestroy m (property sess ''realm'') (property sess ''accessToken'')
               (property sess ''refreshToken'')
        else return_io ())
       (\<lambda>_. bind_io (redisPub_del (prefixSession m @ sid)) (\<lambda>_.
              redisPub_del (prefixSessionIdle m @ sid))) w1"
    by (rule destroy_after_get [OF assms(1) assms(3)])
  also have "\<dots> =
     bind_io (return_io ())
       (\<lambda>_. bind_io (redisPub_del (prefixSession m @ sid)) (\<lambda>_.
              redisPub_del (prefixSessionIdle m @ sid))) w1"
    by (simp only: if_not_P [OF assms(4)])
  also have "\<dots> =
      bind_io (redisPub_del (prefixSession m @ sid)) (\<lambda>_.
              redisPub_del (prefixSessionIdle m @ sid)) w1"
    by (simp add: bind_io_def return_io_def)
  finally show ?thesis
    unfolding deletes_eq [OF r] by (simp add: s issue_def)
qed

lemma get_trace_no_hook:
  "get m sid w = (r, w1) \<Longrightarrow> \<not> list_ex is_hook_call (drop (length (trace w)) (trace w1))"
  using get_trace [of m sid w] by (auto simp add: list_ex_iff)

lemma destroy_absent:
  assumes "store w (prefixSessionIdle m @ sid) = None"
  shows "isl (fst (destroy m sid w))
       \<and> store (snd (destroy m sid w)) = store w
       \<and> trace (snd (destroy m sid w)) = trace w @ [GET (prefixSessionIdle m @ sid)]
       \<and> (\<not> down w \<longrightarrow> fst (get m sid w) = Inr JNull \<and> fst (destroy m sid w) = Inl TypeError)"
  using assms
  by (simp add: destroy_def get_def get_with_def bind_io_def redisPub_get_def return_io_def throw_io_def)

subsection \<open>Key prefixes and \<^verbatim>\<open>onExpiration\<close>\<close>


lemma disjoint_keys:
  assumes "keyspaces_disjoint m"
  shows "\<not> prefix (prefixSessionIdle m) (prefixSession m @ a)"
    and "prefixSession m @ a \<noteq> prefixSessionIdle m @ b"
proof -
  show n: "\<not> prefix (prefixSessionIdle m) (prefixSession m @ a)" for a
  proof
    assume "prefix (prefixSessionIdle m) (prefixSession m @ a)"
    then have "prefix (prefixSessionIdle m) (prefixSession m)
        \<or> (\<exists>us. prefixSessionIdle m = prefixSession m @ us \<and> prefix us a)"
      by (simp add: prefix_append)
    then show False
      using assms by (auto simp add: keyspaces_disjoint_def)
  qed
  show "prefixSession m @ a \<noteq> prefixSessionIdle m @ b"
    using n [of a] by (metis prefixI)
qed

lemma redisPub_del_trace [simp]: "trace (snd (redisPub_del k w)) = trace w @ [DEL k]"
  by (simp add: redisPub_del_def)


lemma destroy_outage [simp]: "outage (snd (destroy m sid w)) = outage w"
  by (cases "get m sid w")
     (auto simp add: destroy_def get_def get_with_def bind_io_def throw_io_def return_io_def
        call_beforeDestroy_def redisPub_del_def redisPub_get_def Let_def
        split: sum.splits option.splits outcome.splits prod.splits if_splits)

lemma onExpiration_outage [simp]: "outage (snd (onExpiration m channel key w)) = outage w"
  by (simp add: onExpiration_def split: prod.splits)
     (metis destroy_outage snd_conv)

lemma elapse_outage [simp]: "outage (elapse n w) = outage w"
  by (simp add: elapse_def)

subsection \<open>Histories: a key that is absent stays absent unless it is set\<close>

lemma redisPub_expire_absent:
  "store w k' = None \<Longrightarrow> store (snd (redisPub_expire k t w)) k' = None"
  by (auto simp add: redisPub_expire_def split: option.splits)

lemma bind_io_absent:
  assumes "\<And>w. store w k = None \<Longrightarrow> store (snd (f w)) k = None"
      and "\<And>x w. store w k = None \<Longrightarrow> store (snd (g x w)) k = None"
      and "store w k = None"
  shows "store (snd (bind_io f g w)) k = None"
proof (cases "f w")
  case (Pair r w1)
  have a: "store w1 k = None"
    using assms(1) [OF assms(3)] Pair by simp
  show ?thesis
  proof (cases r)
    case (Inl e)
    then show ?thesis using Pair a by (simp add: bind_io_def)
  next
    case (Inr x)
    then show ?thesis using Pair assms(2) [OF a, of x] by (simp add: bind_io_def)
  qed
qed

lemma redisPub_del_absent:
  "store w k' = None \<Longrightarrow> store (snd (redisPub_del k w)) k' = None"
  by (simp add: redisPub_del_def)

lemma call_beforeDestroy_store [simp]:
  "store (snd (call_beforeDestroy m r a t w)) = store w"
  by (simp add: call_beforeDestroy_def split: option.splits outcome.splits)

lemma destroy_absent_stays:
  "store w k = None \<Longrightarrow> store (snd (destroy m sid w)) k = None"
  unfolding destroy_def Let_def
  by (rule bind_io_absent)
     (auto simp add: throw_io_def return_io_def
        intro!: bind_io_absent redisPub_del_absent)

lemma onExpiration_absent_stays:
  "store w k = None \<Longrightarrow> store (snd (onExpiration m channel key w)) k = None"
  by (simp add: onExpiration_def split: prod.splits)
     (metis destroy_absent_stays snd_conv)

lemma elapse_absent_stays: "store w k = None \<Longrightarrow> store (elapse n w) k = None"
  by (simp add: elapse_def)

lemma step_prefixes:
  "step (m, w) c = (m', w') \<Longrightarrow>
   prefixSession m' = prefixSession m \<and> prefixSessionIdle m' = prefixSessionIdle m"
  by (cases c) (auto simp add: setFuncToCallBeforeDestroy_def)

lemma step_absent_stays:
  assumes "keyspaces_disjoint m" and "\<not> sets sid c"
      and "store w (prefixSessionIdle m @ sid) = None"
      and "step (m, w) c = (m', w')"
  shows "store w' (prefixSessionIdle m @ sid) = None"
proof (cases c)
  case (Call_set s d)
  have "prefixSessionIdle m @ sid \<noteq> prefixSession m @ s"
    using disjoint_keys(2) [OF assms(1), of s sid] by simp
  moreover have "prefixSessionIdle m @ sid \<noteq> prefixSessionIdle m @ s"
    using assms(2) Call_set by simp
  ultimately show ?thesis
    using assms(3,4) Call_set by (auto simp add: set_session_store_other)
next
  case (Call_get s)
  then show ?thesis using assms(3,4) by auto
next
  case (Call_destroy s)
  then show ?thesis using assms(3,4) by (auto simp add: destroy_absent_stays)
next
  case (Call_restartIdleTTL s)
  then show ?thesis
    using assms(3,4) by (auto simp add: restartIdleTTL_def redisPub_expire_absent)
next
  case (Call_setFuncToCallBeforeDestroy prom)
  then show ?thesis using assms(3,4) by auto
next
  case (Notify channel key)
  then show ?thesis using assms(3,4) by (auto simp add: onExpiration_absent_stays)
next
  case (Wait n)
  then show ?thesis using assms(3,4) by (auto simp add: elapse_absent_stays)
qed

lemma keyspaces_disjoint_cong:
  "prefixSession m' = prefixSession m \<Longrightarrow> prefixSessionIdle m' = prefixSessionIdle m \<Longrightarrow>
   keyspaces_disjoint m' = keyspaces_disjoint m"
  by (simp add: keyspaces_disjoint_def)

lemma run_absent_stays:
  "keyspaces_disjoint m \<Longrightarrow> never_set sid calls \<Longrightarrow>
   store w (prefixSessionIdle m @ sid) = None \<Longrightarrow>
   run (m, w) calls = (m', w') \<Longrightarrow>
   store w' (prefixSessionIdle m' @ sid) = None"
proof (induction calls arbitrary: m w)
  case Nil
  then show ?case by (simp add: run_def)
next
  case (Cons c calls)
  obtain m1 w1 where s: "step (m, w) c = (m1, w1)"
    by (cases "step (m, w) c") auto
  have n: "\<not> sets sid c" "never_set sid calls"
    using Cons.prems(2) by (simp_all add: never_set_def)
  have p: "prefixSession m1 = prefixSession m" "prefixSessionIdle m1 = prefixSessionIdle m"
    using step_prefixes [OF s] by simp_all
  have a: "store w1 (prefixSessionIdle m1 @ sid) = None"
    using step_absent_stays [OF Cons.prems(1) n(1) Cons.prems(3) s] p by simp
  have k: "keyspaces_disjoint m1"
    using Cons.prems(1) keyspaces_disjoint_cong [OF p] by simp
  have r: "run (m1, w1) calls = (m', w')"
    using Cons.prems(4) s by (simp add: run_def)
  show ?case
    by (rule Cons.IH [OF k n(2) a r])
qed

lemma step_outage: "step (m, w) c = (m', w') \<Longrightarrow> outage w' = outage w"
  by (cases c) (auto simp add: restartIdleTTL_def)

lemma run_outage: "run (m, w) calls = (m', w') \<Longrightarrow> outage w' = outage w"
proof (induction calls arbitrary: m w)
  case Nil
  then show ?case by (simp add: run_def)
next
  case (Cons c calls)
  obtain m1 w1 where s: "step (m, w) c = (m1, w1)"
    by (cases "step (m, w) c") auto
  have "run (m1, w1) calls = (m', w')"
    using Cons.prems s by (simp add: run_def)
  then show ?case
    using Cons.IH step_outage [OF s] by simp
qed

subsection \<open>The scenario\<close>

lemma reliable_fresh: "reliable fresh"
  by (simp add: reliable_def fresh_def)

lemma manager_fields:
  "prefixSession manager = ''session:''"
  "prefixSessionIdle manager = ''session-idle:''"
  "maxLifetime manager = 86400"
  "maxIdleTime manager = 1800"
  "maxLoginReturnTime manager = 120"
  "sessionIdleValue manager = ''empty''"
  "prefixSessionIdleSize manager = 13"
  by (simp_all add: manager_def setFuncToCallBeforeDestroy_def RedisSessionMgmt_def
      default_config_def or_number_def or_string_def)

lemma logged_in_store:
  "store logged_in ''session:u1'' =
     Some \<lparr>content = JSON_stringify credentials, ttl = Some 86400\<rparr>"
  "store logged_in ''session-idle:u1'' = Some \<lparr>content = ''empty'', ttl = Some 120\<rparr>"
  using set_session_store_record [OF reliable_fresh, of manager "''u1''" credentials]
        set_session_store_idle [OF reliable_fresh, of manager "''u1''" credentials]
  by (simp_all add: logged_in_def manager_fields)

lemma idle_expired_store:
  "store idle_expired ''session:u1'' =
     Some \<lparr>content = JSON_stringify credentials, ttl = Some 86279\<rparr>"
  "store idle_expired ''session-idle:u1'' = None"
  by (simp_all add: idle_expired_def elapse_def logged_in_store)

lemma idle_expired_outage: "outage idle_expired = (\<lambda>n. False)"
  by (simp add: idle_expired_def elapse_def logged_in_def fresh_def)

lemma manager_hook: "beforeDestroy manager = Some (\<lambda>realm accessToken refreshToken. Resolved)"
  by (simp add: manager_def setFuncToCallBeforeDestroy_def)

lemma manager_rejecting_fields:
  "prefixSession manager_rejecting = ''session:''"
  "prefixSessionIdle manager_rejecting = ''session-idle:''"
  "beforeDestroy manager_rejecting = Some (\<lambda>realm accessToken refreshToken. Rejected)"
  by (simp_all add: manager_rejecting_def setFuncToCallBeforeDestroy_def RedisSessionMgmt_def
      default_config_def or_string_def)

lemma reliable_logged_in: "reliable logged_in"
  by (simp add: logged_in_def reliable_def fresh_def)

lemma credentials_properties:
  "property credentials ''accessToken'' = Some (JStr ''tok1'')"
  "property credentials ''realm'' = Some (JStr ''master'')"
  "property credentials ''refreshToken'' = Some (JStr ''ref1'')"
  by (simp_all add: credentials_def property_def)

lemma credentials_roundtrip: "JSON_parse (JSON_stringify credentials) = Inr credentials"
  by code_simp

lemma get_logged_in:
  "prefixSession m = ''session:'' \<Longrightarrow> prefixSessionIdle m = ''session-idle:'' \<Longrightarrow>
   get m ''u1'' logged_in = (Inr credentials, snd (get m ''u1'' logged_in))"
proof -
  assume p: "prefixSession m = ''session:''" "prefixSessionIdle m = ''session-idle:''"
  have i: "store logged_in (prefixSessionIdle m @ ''u1'') = Some \<lparr>content = ''empty'', ttl = Some 120\<rparr>"
    by (simp add: p logged_in_store)
  have "fst (get m ''u1'' logged_in) = Inr credentials"
    by (simp add: get_present [OF reliable_logged_in i] p logged_in_store credentials_roundtrip)
  then show ?thesis
    by (metis prod.collapse)
qed

lemma get_logged_in_trace:
  "prefixSession m = ''session:'' \<Longrightarrow> prefixSessionIdle m = ''session-idle:'' \<Longrightarrow>
   trace (snd (get m ''u1'' logged_in)) =
     trace logged_in @ [GET ''session-idle:u1'', GET ''session:u1'']"
  using reliable_not_down [OF reliable_logged_in]
  by (simp add: get_trace logged_in_store)


lemma tuned_fields:
  "prefixSession (RedisSessionMgmt tuned_config) = ''s:''"
  "prefixSessionIdle (RedisSessionMgmt tuned_config) = ''i:''"
  "maxLifetime (RedisSessionMgmt tuned_config) = 3600"
  "maxIdleTime (RedisSessionMgmt tuned_config) = 600"
  "maxLoginReturnTime (RedisSessionMgmt tuned_config) = 60"
  by (simp_all add: RedisSessionMgmt_def tuned_config_def or_number_def or_string_def)

lemma tuned_instance:
  "RedisSessionMgmt tuned_config = (RedisSessionMgmt tuned_config)\<lparr>beforeDestroy := None\<rparr>"
  by (simp add: RedisSessionMgmt_def)

lemma tuned_logged_in_store:
  "store tuned_logged_in ''s:u1'' =
     Some \<lparr>content = JSON_stringify credentials, ttl = Some 3600\<rparr>"
  "store tuned_logged_in ''i:u1'' = Some \<lparr>content = ''empty'', ttl = Some 60\<rparr>"
  using set_session_store_record [OF reliable_fresh, of "RedisSessionMgmt tuned_config" "''u1''" credentials]
        set_session_store_idle [OF reliable_fresh, of "RedisSessionMgmt tuned_config" "''u1''" credentials]
  by (simp_all add: tuned_logged_in_def tuned_fields)

section \<open>The claims\<close>

text \<open>
  C1, evaluated on the scenario. The session \<^verbatim>\<open>u1\<close> is set, its idle marker expires
  after 121 seconds, and the expiration event of \<^verbatim>\<open>session-idle:u1\<close> is delivered.
  Afterwards \<^verbatim>\<open>get\<close> returns null and the idle marker is gone, but the record key is
  still in the store: the listener's \<^verbatim>\<open>destroy\<close> issued one \<^verbatim>\<open>GET\<close>, no hook call
  and no \<^verbatim>\<open>DEL\<close>.
\<close>

theorem expired_idle_marker_leaves_record:
  "store after_expiration ''session:u1'' =
     Some \<lparr>content = JSON_stringify credentials, ttl = Some 86279\<rparr>
   \<and> store after_expiration ''session-idle:u1'' = None
   \<and> trace after_expiration = trace idle_expired @ [GET ''session-idle:u1'']
   \<and> fst (get manager ''u1'' after_expiration) = Inr JNull"
proof -
  have a: "store idle_expired (prefixSessionIdle manager @ ''u1'') = None"
    by (simp add: manager_fields idle_expired_store)
  have e: "after_expiration = snd (destroy manager ''u1'' idle_expired)"
    by (simp add: after_expiration_def onExpiration_def manager_fields split: prod.splits)
  have s: "store after_expiration = store idle_expired"
    and t: "trace after_expiration = trace idle_expired @ [GET ''session-idle:u1'']"
    using destroy_absent [OF a] by (simp_all add: e manager_fields)
  have o: "outage after_expiration = (\<lambda>n. False)"
    by (simp add: e idle_expired_outage)
  have g: "fst (get manager ''u1'' after_expiration) = Inr JNull"
    using get_absent [of after_expiration manager "''u1''"]
    by (simp add: s manager_fields idle_expired_store down_def o)
  show ?thesis
    by (simp add: s t g idle_expired_store)
qed

text \<open>
  C2. Let \<^verbatim>\<open>get(sid)\<close> return the value \<open>sess\<close>, with a hook registered and a store that
  answers every command. \<^verbatim>\<open>destroy(sid)\<close> calls the hook exactly when the three
  properties \<^verbatim>\<open>accessToken\<close>, \<^verbatim>\<open>realm\<close> and \<^verbatim>\<open>refreshToken\<close> of \<open>sess\<close> are all
  present and not empty (truthy: for a string, not the empty string). It then calls it
  once, with the values in the order realm, access token, refresh token, after the reads
  of \<^verbatim>\<open>get\<close> and before the two \<^verbatim>\<open>DEL\<close> commands, which follow only when the hook
  has resolved. Without the three properties the two \<^verbatim>\<open>DEL\<close> commands follow the reads
  directly.
\<close>

theorem destroy_calls_hook_iff_credentials:
  assumes "get m sid w = (Inr sess, w1)"
      and "beforeDestroy m = Some prom"
      and "reliable w"
  shows "trace (snd (destroy m sid w)) =
           trace w1 @
           (if truthy (property sess ''accessToken'') \<and> truthy (property sess ''realm'')
               \<and> truthy (property sess ''refreshToken'')
            then HOOK (property sess ''realm'') (property sess ''accessToken'')
                   (property sess ''refreshToken'')
                 # (if prom (property sess ''realm'') (property sess ''accessToken'')
                         (property sess ''refreshToken'') = Resolved
                    then [DEL (prefixSession m @ sid), DEL (prefixSessionIdle m @ sid)]
                    else [])
            else if sess = JNull then []
            else [DEL (prefixSession m @ sid), DEL (prefixSessionIdle m @ sid)])
       \<and> length (filter is_hook_call (drop (length (trace w)) (trace (snd (destroy m sid w))))) =
           (if truthy (property sess ''accessToken'') \<and> truthy (property sess ''realm'')
               \<and> truthy (property sess ''refreshToken'') then 1 else 0)
       \<and> \<not> truthy None \<and> (\<forall>s. truthy (Some (JStr s)) = (s \<noteq> []))"
proof -
  let ?c = "truthy (property sess ''accessToken'') \<and> truthy (property sess ''realm'')
               \<and> truthy (property sess ''refreshToken'')"
  let ?o = "prom (property sess ''realm'') (property sess ''accessToken'')
                         (property sess ''refreshToken'')"
  obtain es where es: "trace w1 = trace w @ es" "filter is_hook_call es = []"
    using get_trace [of m sid w] assms(1) by (cases "store w (prefixSessionIdle m @ sid) = None \<or> down w") auto
  show ?thesis
  proof (cases ?c)
    case True
    show ?thesis
    proof (cases ?o)
      case Resolved
      then show ?thesis
        using True es destroy_resolved [OF assms(1) assms(3) _ _ _ assms(2)] by simp
    next
      case Rejected
      then show ?thesis
        using True es destroy_rejected [OF assms(1) _ _ _ assms(2)] by simp
    qed
  next
    case False
    show ?thesis
    proof (cases "sess = JNull")
      case True
      then show ?thesis
        using False es destroy_after_null [of m sid w w1] assms(1) by simp
    next
      case n: False
      show ?thesis
        using False n es destroy_no_credentials [OF assms(1) assms(3) n False] by simp
    qed
  qed
qed

theorem destroy_calls_hook_iff_credentials_witness:
  "get manager ''u1'' logged_in = (Inr credentials, snd (get manager ''u1'' logged_in))
   \<and> beforeDestroy manager = Some (\<lambda>realm accessToken refreshToken. Resolved)
   \<and> reliable logged_in
   \<and> trace (snd (destroy manager ''u1'' logged_in)) =
       trace logged_in @
         [GET ''session-idle:u1'', GET ''session:u1'',
          HOOK (Some (JStr ''master'')) (Some (JStr ''tok1'')) (Some (JStr ''ref1'')),
          DEL ''session:u1'', DEL ''session-idle:u1'']"
proof -
  have a: "get manager ''u1'' logged_in = (Inr credentials, snd (get manager ''u1'' logged_in))"
    by (rule get_logged_in) (simp_all add: manager_fields)
  show ?thesis
    using destroy_calls_hook_iff_credentials [OF a manager_hook reliable_logged_in]
          a manager_hook reliable_logged_in
    by (simp add: credentials_properties manager_fields get_logged_in_trace)
qed

text \<open>
  C3, as amended. Let \<^verbatim>\<open>get(sid)\<close> return a value \<open>sess\<close> other than null, with a hook
  registered and a store that answers every command. When the hook is called and rejects,
  \<^verbatim>\<open>destroy(sid)\<close> throws the rejection on and the store is left as it was. In every
  other case (the hook is not called, or it resolves) \<^verbatim>\<open>destroy(sid)\<close> completes, the
  two \<^verbatim>\<open>DEL\<close> commands are the last it issues, after the hook, and exactly the record
  key and the idle marker are removed from the store.
\<close>

theorem destroy_deletes_unless_hook_rejects:
  assumes "get m sid w = (Inr sess, w1)"
      and "sess \<noteq> JNull"
      and "beforeDestroy m = Some prom"
      and "reliable w"
  shows "(if truthy (property sess ''accessToken'') \<and> truthy (property sess ''realm'')
             \<and> truthy (property sess ''refreshToken'')
             \<and> prom (property sess ''realm'') (property sess ''accessToken'')
                  (property sess ''refreshToken'') = Rejected
          then fst (destroy m sid w) = Inl HookFailure
             \<and> store (snd (destroy m sid w)) = store w
          else fst (destroy m sid w) = Inr ()
             \<and> store (snd (destroy m sid w)) =
                 (store w)(prefixSession m @ sid := None, prefixSessionIdle m @ sid := None)
             \<and> trace (snd (destroy m sid w)) =
                 trace w1
                 @ (if truthy (property sess ''accessToken'') \<and> truthy (property sess ''realm'')
                       \<and> truthy (property sess ''refreshToken'')
                    then [HOOK (property sess ''realm'') (property sess ''accessToken'')
                            (property sess ''refreshToken'')]
                    else [])
                 @ [DEL (prefixSession m @ sid), DEL (prefixSessionIdle m @ sid)])"
proof -
  let ?c = "truthy (property sess ''accessToken'') \<and> truthy (property sess ''realm'')
               \<and> truthy (property sess ''refreshToken'')"
  let ?o = "prom (property sess ''realm'') (property sess ''accessToken'')
                         (property sess ''refreshToken'')"
  have s: "store w1 = store w"
    using get_store [of m sid w] assms(1) by simp
  show ?thesis
  proof (cases ?c)
    case True
    show ?thesis
    proof (cases ?o)
      case Resolved
      then show ?thesis
        using True destroy_resolved [OF assms(1) assms(4) _ _ _ assms(3)]
        by (simp add: issue_def)
    next
      case Rejected
      then show ?thesis
        using True destroy_rejected [OF assms(1) _ _ _ assms(3)] s by simp
    qed
  next
    case False
    have d: "destroy m sid w =
       (Inr (), issue (DEL (prefixSessionIdle m @ sid)) (issue (DEL (prefixSession m @ sid))
           (w1\<lparr>store := (store w)(prefixSession m @ sid := None,
                                     prefixSessionIdle m @ sid := None)\<rparr>)))"
      by (rule destroy_no_credentials [OF assms(1) assms(4) assms(2) False])
    have "\<not> (truthy (property sess ''accessToken'') \<and> truthy (property sess ''realm'')
             \<and> truthy (property sess ''refreshToken'') \<and> ?o = Rejected)"
      using False by blast
    then show ?thesis
      unfolding d if_not_P [OF False] by (simp only: if_not_P) (simp add: issue_def)
  qed
qed

theorem destroy_deletes_unless_hook_rejects_witness:
  "get manager ''u1'' logged_in = (Inr credentials, snd (get manager ''u1'' logged_in))
   \<and> credentials \<noteq> JNull
   \<and> beforeDestroy manager = Some (\<lambda>realm accessToken refreshToken. Resolved)
   \<and> reliable logged_in
   \<and> fst (destroy manager ''u1'' logged_in) = Inr ()
   \<and> store (snd (destroy manager ''u1'' logged_in)) ''session:u1'' = None
   \<and> store (snd (destroy manager ''u1'' logged_in)) ''session-idle:u1'' = None"
proof -
  have a: "get manager ''u1'' logged_in = (Inr credentials, snd (get manager ''u1'' logged_in))"
    by (rule get_logged_in) (simp_all add: manager_fields)
  have n: "credentials \<noteq> JNull"
    by (simp add: credentials_def)
  show ?thesis
    using destroy_deletes_unless_hook_rejects [OF a n manager_hook reliable_logged_in]
          a n manager_hook reliable_logged_in
    by (simp add: manager_fields)
qed

text \<open>
  C3 as stated fails: with a hook that rejects, \<^verbatim>\<open>destroy\<close> of the session set in the
  scenario throws after the hook call and both keys stay in the store.
\<close>

theorem destroy_keeps_keys_when_hook_rejects:
  "fst (destroy manager_rejecting ''u1'' logged_in) = Inl HookFailure
   \<and> store (snd (destroy manager_rejecting ''u1'' logged_in)) ''session:u1'' =
       Some \<lparr>content = JSON_stringify credentials, ttl = Some 86400\<rparr>
   \<and> store (snd (destroy manager_rejecting ''u1'' logged_in)) ''session-idle:u1'' =
       Some \<lparr>content = ''empty'', ttl = Some 120\<rparr>
   \<and> trace (snd (destroy manager_rejecting ''u1'' logged_in)) =
       trace logged_in @
         [GET ''session-idle:u1'', GET ''session:u1'',
          HOOK (Some (JStr ''master'')) (Some (JStr ''tok1'')) (Some (JStr ''ref1''))]"
proof -
  have a: "get manager_rejecting ''u1'' logged_in =
      (Inr credentials, snd (get manager_rejecting ''u1'' logged_in))"
    by (rule get_logged_in) (simp_all add: manager_rejecting_fields)
  have d: "destroy manager_rejecting ''u1'' logged_in =
     (Inl HookFailure, issue (HOOK (Some (JStr ''master'')) (Some (JStr ''tok1'')) (Some (JStr ''ref1'')))
        (snd (get manager_rejecting ''u1'' logged_in)))"
    using destroy_rejected [OF a _ _ _ manager_rejecting_fields(3)]
    by (simp add: credentials_properties)
  show ?thesis
    by (simp add: d logged_in_store get_logged_in_trace manager_rejecting_fields)
qed

text \<open>
  C4. A payload is serializable when \<^verbatim>\<open>JSON.parse\<close> reads it back from the text that
  \<^verbatim>\<open>JSON.stringify\<close> writes for it. On an instance whose two key prefixes differ and
  a store that answers every command, \<^verbatim>\<open>set(sid, data)\<close> completes, and a
  \<^verbatim>\<open>get(sid)\<close> made in the world it leaves returns what \<^verbatim>\<open>JSON.parse\<close> makes of
  the text \<^verbatim>\<open>JSON.stringify\<close> wrote for \<open>data\<close>: the payload \<open>data\<close> itself for
  every serializable payload. This holds for every type of payloads and every pair of
  functions in the place of \<^verbatim>\<open>JSON.stringify\<close> and \<^verbatim>\<open>JSON.parse\<close>, and so for
  \<open>get\<close> and \<open>set_session\<close>.
\<close>

theorem get_after_set:
  assumes "m = (RedisSessionMgmt cfg)\<lparr>beforeDestroy := hk\<rparr>"
      and "prefixSession m \<noteq> prefixSessionIdle m"
      and "reliable w"
  shows "fst (set_with stringify m sid d w) = Inr ()
       \<and> fst (get_with parse null_value m sid (snd (set_with stringify m sid d w))) =
           parse (stringify d)
       \<and> (parse (stringify d) = Inr d \<longrightarrow>
            fst (get_with parse null_value m sid (snd (set_with stringify m sid d w))) = Inr d)
       \<and> fst (get m sid (snd (set_session m sid j w))) = JSON_parse (JSON_stringify j)"
proof -
  have t: "0 < maxLoginReturnTime m" "0 < maxLifetime m"
    using assms(1) by simp_all
  have g: "fst (get_with p n m sid (snd (set_with s m sid x w))) = p (s x)"
    for p :: "string \<Rightarrow> error + 'q" and n :: 'q and s :: "'q \<Rightarrow> string" and x :: 'q
  proof -
    let ?w = "snd (set_with s m sid x w)"
    have r: "reliable ?w"
      using assms(3) by (simp add: reliable_def)
    have i: "store ?w (prefixSessionIdle m @ sid) =
        Some \<lparr>content = sessionIdleValue m, ttl = Some (maxLoginReturnTime m)\<rparr>"
      using assms(3) t(1) by (rule set_with_store_idle)
    have c: "store ?w (prefixSession m @ sid) = Some \<lparr>content = s x, ttl = Some (maxLifetime m)\<rparr>"
      using assms(3) t(2) assms(2) by (rule set_with_store_record)
    show ?thesis
      by (simp add: get_with_present [OF r i] c)
  qed
  show ?thesis
    using assms(3) g [of parse null_value stringify d] g [of JSON_parse JNull JSON_stringify j]
    by (simp add: set_with_ok get_def set_session_def)
qed

theorem get_after_set_witness:
  "manager = (RedisSessionMgmt default_config)\<lparr>beforeDestroy := Some (\<lambda>realm accessToken refreshToken. Resolved)\<rparr>
   \<and> prefixSession manager \<noteq> prefixSessionIdle manager
   \<and> reliable fresh
   \<and> JSON_parse (JSON_stringify credentials) = Inr credentials
   \<and> fst (get manager ''u1'' (snd (set_session manager ''u1'' credentials fresh))) = Inr credentials"
proof -
  have a: "manager = (RedisSessionMgmt default_config)\<lparr>beforeDestroy := Some (\<lambda>realm accessToken refreshToken. Resolved)\<rparr>"
    by (simp add: manager_def setFuncToCallBeforeDestroy_def)
  have b: "prefixSession manager \<noteq> prefixSessionIdle manager"
    by (simp add: manager_fields)
  have c: "JSON_parse (JSON_stringify credentials) = Inr credentials"
    by (rule JSON_roundtrip)
  show ?thesis
    using get_after_set [OF a b reliable_fresh, of JSON_stringify "''u1''" credentials JSON_parse JNull]
          a b c reliable_fresh
    by (simp add: get_def set_session_def)
qed

text \<open>
  C5. \<^verbatim>\<open>get(sid)\<close> reads the idle marker first, and reads the record only when the
  idle marker exists and that first read was answered. When the idle marker is absent
  and the read is answered, \<^verbatim>\<open>get\<close> returns null without raising, having issued that
  one read. In particular, after any history of calls, notifications and waiting that
  starts from an empty store and never sets \<open>sid\<close>, on an instance whose two keyspaces
  do not meet, \<^verbatim>\<open>get(sid)\<close> returns null.
\<close>

theorem get_checks_idle_marker_first:
  "trace (snd (get m sid w)) =
     trace w @ (if store w (prefixSessionIdle m @ sid) = None \<or> down w
                then [GET (prefixSessionIdle m @ sid)]
                else [GET (prefixSessionIdle m @ sid), GET (prefixSession m @ sid)])
   \<and> (store w (prefixSessionIdle m @ sid) = None \<and> \<not> down w \<longrightarrow>
        get m sid w = (Inr JNull, issue (GET (prefixSessionIdle m @ sid)) w))
   \<and> (keyspaces_disjoint m0 \<and> store w0 = Map.empty \<and> never_set sid calls
        \<and> run (m0, w0) calls = (m, w) \<and> \<not> down w \<longrightarrow>
        fst (get m sid w) = Inr JNull)"
proof -
  have "fst (get m sid w) = Inr JNull"
    if "keyspaces_disjoint m0" "store w0 = Map.empty" "never_set sid calls"
       "run (m0, w0) calls = (m, w)" "\<not> down w"
  proof -
    have "store w0 (prefixSessionIdle m0 @ sid) = None"
      using that(2) by simp
    then have "store w (prefixSessionIdle m @ sid) = None"
      using run_absent_stays [OF that(1) that(3) _ that(4)] by simp
    then show ?thesis
      using that(5) by (simp add: get_absent)
  qed
  then show ?thesis
    by (simp add: get_trace get_absent)
qed

theorem get_checks_idle_marker_first_witness:
  "keyspaces_disjoint (RedisSessionMgmt default_config) \<and> store fresh = Map.empty
   \<and> never_set ''u1'' history
   \<and> \<not> down (snd (run (RedisSessionMgmt default_config, fresh) history))
   \<and> fst (get (fst (run (RedisSessionMgmt default_config, fresh) history)) ''u1''
             (snd (run (RedisSessionMgmt default_config, fresh) history))) = Inr JNull"
proof -
  let ?m = "fst (run (RedisSessionMgmt default_config, fresh) history)"
  let ?w = "snd (run (RedisSessionMgmt default_config, fresh) history)"
  have a: "keyspaces_disjoint (RedisSessionMgmt default_config)"
    by (simp add: keyspaces_disjoint_def RedisSessionMgmt_def default_config_def or_string_def)
  have b: "store fresh = Map.empty"
    by (simp add: fresh_def)
  have c: "never_set ''u1'' history"
    by (simp add: never_set_def history_def)
  have r: "run (RedisSessionMgmt default_config, fresh) history = (?m, ?w)"
    by simp
  have d: "\<not> down ?w"
    using run_outage [OF r] by (simp add: down_def fresh_def)
  show ?thesis
    using get_checks_idle_marker_first
            [of ?m "''u1''" ?w "RedisSessionMgmt default_config" fresh history] a b c d
    by simp
qed



text \<open>
  C7. On a store that answers every command, \<^verbatim>\<open>set(sid, data)\<close> issues four commands
  in this order: \<^verbatim>\<open>SET\<close> of the record key to the serialised payload, \<^verbatim>\<open>EXPIRE\<close> of
  the record key with the maximum lifetime, \<^verbatim>\<open>SET\<close> of the idle marker, \<^verbatim>\<open>EXPIRE\<close> of
  the idle marker with the login-return time. The idle marker is left with that
  time-to-live and, when the prefixes differ, the record with the maximum lifetime. The
  maximum lifetime is the configured value \<open>v\<close> when one is given and is not 0, and
  86400 otherwise; the login-return time is the configured value \<open>t\<close> when one is given
  and is not 0, and 120 otherwise, whatever the configured idle timeout is.
\<close>

theorem set_writes_record_then_idle_marker:
  assumes "m = (RedisSessionMgmt cfg)\<lparr>beforeDestroy := hk\<rparr>"
      and "reliable w"
  shows "fst (set_session m sid d w) = Inr ()
       \<and> trace (snd (set_session m sid d w)) =
           trace w @ [SET (prefixSession m @ sid) (JSON_stringify d),
                      EXPIRE (prefixSession m @ sid) (maxLifetime m),
                      SET (prefixSessionIdle m @ sid) ''empty'',
                      EXPIRE (prefixSessionIdle m @ sid) (maxLoginReturnTime m)]
       \<and> store (snd (set_session m sid d w)) (prefixSessionIdle m @ sid) =
           Some \<lparr>content = ''empty'', ttl = Some (maxLoginReturnTime m)\<rparr>
       \<and> (prefixSession m \<noteq> prefixSessionIdle m \<longrightarrow>
            store (snd (set_session m sid d w)) (prefixSession m @ sid) =
              Some \<lparr>content = JSON_stringify d, ttl = Some (maxLifetime m)\<rparr>)
       \<and> (redis_max_life_time_sec cfg = Some v \<and> 0 < v \<longrightarrow> maxLifetime m = v)
       \<and> (redis_max_life_time_sec cfg = None \<or> redis_max_life_time_sec cfg = Some 0 \<longrightarrow>
            maxLifetime m = 86400)
       \<and> (redis_max_login_return_time_sec cfg = Some t \<and> 0 < t \<longrightarrow> maxLoginReturnTime m = t)
       \<and> (redis_max_login_return_time_sec cfg = None
            \<or> redis_max_login_return_time_sec cfg = Some 0 \<longrightarrow> maxLoginReturnTime m = 120)
       \<and> maxLoginReturnTime (RedisSessionMgmt (cfg\<lparr>redis_max_idle_time_sec := x\<rparr>)) =
           maxLoginReturnTime m"
proof -
  have t: "0 < maxLoginReturnTime m" "0 < maxLifetime m" "sessionIdleValue m = ''empty''"
    using assms(1) by simp_all
  have c: "maxLifetime m =
             (case redis_max_life_time_sec cfg of None \<Rightarrow> 86400
              | Some v \<Rightarrow> if v = 0 then 86400 else v)"
     "maxLoginReturnTime m =
             (case redis_max_login_return_time_sec cfg of None \<Rightarrow> 120
              | Some v \<Rightarrow> if v = 0 then 120 else v)"
     "maxLoginReturnTime (RedisSessionMgmt (cfg\<lparr>redis_max_idle_time_sec := x\<rparr>)) =
           maxLoginReturnTime m"
    using assms(1) by (simp_all add: RedisSessionMgmt_def or_number_def)
  have s: "fst (set_session m sid d w) = Inr ()"
     "trace (snd (set_session m sid d w)) =
           trace w @ [SET (prefixSession m @ sid) (JSON_stringify d),
                      EXPIRE (prefixSession m @ sid) (maxLifetime m),
                      SET (prefixSessionIdle m @ sid) ''empty'',
                      EXPIRE (prefixSessionIdle m @ sid) (maxLoginReturnTime m)]"
     "store (snd (set_session m sid d w)) (prefixSessionIdle m @ sid) =
           Some \<lparr>content = ''empty'', ttl = Some (maxLoginReturnTime m)\<rparr>"
     "prefixSession m \<noteq> prefixSessionIdle m \<longrightarrow>
            store (snd (set_session m sid d w)) (prefixSession m @ sid) =
              Some \<lparr>content = JSON_stringify d, ttl = Some (maxLifetime m)\<rparr>"
    using assms(2) t
    by (simp_all add: set_session_ok set_session_trace set_session_store_idle
        set_session_store_record)
  have k: "(redis_max_life_time_sec cfg = Some v \<and> 0 < v \<longrightarrow> maxLifetime m = v)"
     "(redis_max_life_time_sec cfg = None \<or> redis_max_life_time_sec cfg = Some 0 \<longrightarrow>
            maxLifetime m = 86400)"
     "(redis_max_login_return_time_sec cfg = Some t \<and> 0 < t \<longrightarrow> maxLoginReturnTime m = t)"
     "(redis_max_login_return_time_sec cfg = None
            \<or> redis_max_login_return_time_sec cfg = Some 0 \<longrightarrow> maxLoginReturnTime m = 120)"
    by (auto simp add: c(1,2))
  show ?thesis
    using s k c(3) by blast
qed

theorem set_writes_record_then_idle_marker_witness:
  "trace logged_in =
     [SET ''session:u1'' (JSON_stringify credentials), EXPIRE ''session:u1'' 86400,
      SET ''session-idle:u1'' ''empty'', EXPIRE ''session-idle:u1'' 120]
   \<and> store logged_in ''session-idle:u1'' = Some \<lparr>content = ''empty'', ttl = Some 120\<rparr>
   \<and> store logged_in ''session:u1'' =
       Some \<lparr>content = JSON_stringify credentials, ttl = Some 86400\<rparr>
   \<and> redis_max_life_time_sec tuned_config = Some 3600 \<and> (0::nat) < 3600
   \<and> redis_max_login_return_time_sec tuned_config = Some 60 \<and> (0::nat) < 60
   \<and> redis_max_idle_time_sec tuned_config = Some 600
   \<and> trace tuned_logged_in =
       [SET ''s:u1'' (JSON_stringify credentials), EXPIRE ''s:u1'' 3600,
        SET ''i:u1'' ''empty'', EXPIRE ''i:u1'' 60]
   \<and> store tuned_logged_in ''i:u1'' = Some \<lparr>content = ''empty'', ttl = Some 60\<rparr>
   \<and> store tuned_logged_in ''s:u1'' =
       Some \<lparr>content = JSON_stringify credentials, ttl = Some 3600\<rparr>"
proof -
  have a: "manager = (RedisSessionMgmt default_config)\<lparr>beforeDestroy := Some (\<lambda>realm accessToken refreshToken. Resolved)\<rparr>"
    by (simp add: manager_def setFuncToCallBeforeDestroy_def)
  have c: "redis_max_life_time_sec tuned_config = Some 3600"
     "redis_max_login_return_time_sec tuned_config = Some 60"
     "redis_max_idle_time_sec tuned_config = Some 600"
    by (simp_all add: tuned_config_def)
  have d: "redis_max_life_time_sec default_config = None"
     "redis_max_login_return_time_sec default_config = None"
    by (simp_all add: default_config_def)
  have p: "prefixSession (RedisSessionMgmt tuned_config) = ''s:''"
     "prefixSessionIdle (RedisSessionMgmt tuned_config) = ''i:''"
    by (rule tuned_fields)+
  have first: "trace logged_in =
     [SET ''session:u1'' (JSON_stringify credentials), EXPIRE ''session:u1'' 86400,
      SET ''session-idle:u1'' ''empty'', EXPIRE ''session-idle:u1'' 120]
   \<and> store logged_in ''session-idle:u1'' = Some \<lparr>content = ''empty'', ttl = Some 120\<rparr>
   \<and> store logged_in ''session:u1'' =
       Some \<lparr>content = JSON_stringify credentials, ttl = Some 86400\<rparr>"
    using set_writes_record_then_idle_marker
            [OF a reliable_fresh, of "''u1''" credentials 0 0 None] d
    by (simp add: logged_in_def manager_fields(1,2) fresh_def)
  have second: "trace tuned_logged_in =
       [SET ''s:u1'' (JSON_stringify credentials), EXPIRE ''s:u1'' 3600,
        SET ''i:u1'' ''empty'', EXPIRE ''i:u1'' 60]
   \<and> store tuned_logged_in ''i:u1'' = Some \<lparr>content = ''empty'', ttl = Some 60\<rparr>
   \<and> store tuned_logged_in ''s:u1'' =
       Some \<lparr>content = JSON_stringify credentials, ttl = Some 3600\<rparr>"
    using set_writes_record_then_idle_marker
            [OF tuned_instance reliable_fresh, of "''u1''" credentials 3600 60 None] c
    by (simp add: tuned_logged_in_def p fresh_def)
  show ?thesis
    using first second c by simp
qed

text \<open>
  C8. When the store answers the command, \<^verbatim>\<open>restartIdleTTL(sid)\<close> issues the one
  command \<^verbatim>\<open>EXPIRE\<close> of the idle marker with the idle timeout, which is the
  configured value \<open>v\<close> when one is given and is not 0, and 1800 otherwise. An existing
  idle marker keeps its value and gets that time-to-live, an absent one stays absent,
  and every other key, the record key among them when the prefixes differ, keeps its
  value and its time-to-live.
\<close>

theorem restartIdleTTL_only_idle_ttl:
  assumes "m = (RedisSessionMgmt cfg)\<lparr>beforeDestroy := hk\<rparr>"
      and "\<not> down w"
  shows "fst (restartIdleTTL m sid w) = Inr ()
       \<and> trace (snd (restartIdleTTL m sid w)) =
           trace w @ [EXPIRE (prefixSessionIdle m @ sid) (maxIdleTime m)]
       \<and> store (snd (restartIdleTTL m sid w)) (prefixSessionIdle m @ sid) =
           map_option (\<lambda>e. e\<lparr>ttl := Some (maxIdleTime m)\<rparr>)
             (store w (prefixSessionIdle m @ sid))
       \<and> map_option content (store (snd (restartIdleTTL m sid w)) (prefixSessionIdle m @ sid)) =
           map_option content (store w (prefixSessionIdle m @ sid))
       \<and> (\<forall>k. k \<noteq> prefixSessionIdle m @ sid \<longrightarrow>
             store (snd (restartIdleTTL m sid w)) k = store w k)
       \<and> (prefixSession m \<noteq> prefixSessionIdle m \<longrightarrow>
             store (snd (restartIdleTTL m sid w)) (prefixSession m @ sid) =
               store w (prefixSession m @ sid))
       \<and> (redis_max_idle_time_sec cfg = Some v \<and> 0 < v \<longrightarrow> maxIdleTime m = v)
       \<and> (redis_max_idle_time_sec cfg = None \<or> redis_max_idle_time_sec cfg = Some 0 \<longrightarrow>
            maxIdleTime m = 1800)"
proof -
  have t: "0 < maxIdleTime m"
    using assms(1) by simp
  have c: "maxIdleTime m =
             (case redis_max_idle_time_sec cfg of None \<Rightarrow> 1800
              | Some v \<Rightarrow> if v = 0 then 1800 else v)"
    using assms(1) by (simp add: RedisSessionMgmt_def or_number_def)
  have k: "(redis_max_idle_time_sec cfg = Some v \<and> 0 < v \<longrightarrow> maxIdleTime m = v)"
     "(redis_max_idle_time_sec cfg = None \<or> redis_max_idle_time_sec cfg = Some 0 \<longrightarrow>
            maxIdleTime m = 1800)"
    by (auto simp add: c)
  have e: "map_option content (map_option (\<lambda>e. e\<lparr>ttl := Some n\<rparr>) x) = map_option content x"
    for x :: "entry option" and n
    by (cases x) simp_all
  have f: "fst (restartIdleTTL m sid w) = Inr ()
       \<and> trace (snd (restartIdleTTL m sid w)) =
           trace w @ [EXPIRE (prefixSessionIdle m @ sid) (maxIdleTime m)]
       \<and> store (snd (restartIdleTTL m sid w)) (prefixSessionIdle m @ sid) =
           map_option (\<lambda>e. e\<lparr>ttl := Some (maxIdleTime m)\<rparr>)
             (store w (prefixSessionIdle m @ sid))
       \<and> map_option content (store (snd (restartIdleTTL m sid w)) (prefixSessionIdle m @ sid)) =
           map_option content (store w (prefixSessionIdle m @ sid))
       \<and> (\<forall>k. k \<noteq> prefixSessionIdle m @ sid \<longrightarrow>
             store (snd (restartIdleTTL m sid w)) k = store w k)
       \<and> (prefixSession m \<noteq> prefixSessionIdle m \<longrightarrow>
             store (snd (restartIdleTTL m sid w)) (prefixSession m @ sid) =
               store w (prefixSession m @ sid))"
    by (simp add: restartIdleTTL_eq [OF assms(2) t] e)
  show ?thesis
    using f k by blast
qed

theorem restartIdleTTL_only_idle_ttl_witness:
  "\<not> down logged_in
   \<and> store (snd (restartIdleTTL manager ''u1'' logged_in)) ''session-idle:u1'' =
       Some \<lparr>content = ''empty'', ttl = Some 1800\<rparr>
   \<and> store (snd (restartIdleTTL manager ''u1'' logged_in)) ''session:u1'' =
       Some \<lparr>content = JSON_stringify credentials, ttl = Some 86400\<rparr>
   \<and> \<not> down tuned_logged_in
   \<and> redis_max_idle_time_sec tuned_config = Some 600 \<and> (0::nat) < 600
   \<and> trace (snd (restartIdleTTL (RedisSessionMgmt tuned_config) ''u1'' tuned_logged_in)) =
       trace tuned_logged_in @ [EXPIRE ''i:u1'' 600]
   \<and> store (snd (restartIdleTTL (RedisSessionMgmt tuned_config) ''u1'' tuned_logged_in)) ''i:u1'' =
       Some \<lparr>content = ''empty'', ttl = Some 600\<rparr>
   \<and> store (snd (restartIdleTTL (RedisSessionMgmt tuned_config) ''u1'' tuned_logged_in)) ''s:u1'' =
       Some \<lparr>content = JSON_stringify credentials, ttl = Some 3600\<rparr>"
proof -
  have a: "manager = (RedisSessionMgmt default_config)\<lparr>beforeDestroy := Some (\<lambda>realm accessToken refreshToken. Resolved)\<rparr>"
    by (simp add: manager_def setFuncToCallBeforeDestroy_def)
  have b: "\<not> down logged_in"
    by (simp add: down_def logged_in_def fresh_def)
  have b': "\<not> down tuned_logged_in"
    by (simp add: down_def tuned_logged_in_def fresh_def)
  have c: "redis_max_idle_time_sec tuned_config = Some 600"
    by (simp add: tuned_config_def)
  have d: "redis_max_idle_time_sec default_config = None"
    by (simp add: default_config_def)
  have p: "prefixSession (RedisSessionMgmt tuned_config) = ''s:''"
     "prefixSessionIdle (RedisSessionMgmt tuned_config) = ''i:''"
    by (rule tuned_fields)+
  have first: "store (snd (restartIdleTTL manager ''u1'' logged_in)) ''session-idle:u1'' =
       Some \<lparr>content = ''empty'', ttl = Some 1800\<rparr>
   \<and> store (snd (restartIdleTTL manager ''u1'' logged_in)) ''session:u1'' =
       Some \<lparr>content = JSON_stringify credentials, ttl = Some 86400\<rparr>"
    using restartIdleTTL_only_idle_ttl [OF a b, of "''u1''" 0] d
    by (simp add: manager_fields(1,2) logged_in_store)
  have second: "trace (snd (restartIdleTTL (RedisSessionMgmt tuned_config) ''u1'' tuned_logged_in)) =
       trace tuned_logged_in @ [EXPIRE ''i:u1'' 600]
   \<and> store (snd (restartIdleTTL (RedisSessionMgmt tuned_config) ''u1'' tuned_logged_in)) ''i:u1'' =
       Some \<lparr>content = ''empty'', ttl = Some 600\<rparr>
   \<and> store (snd (restartIdleTTL (RedisSessionMgmt tuned_config) ''u1'' tuned_logged_in)) ''s:u1'' =
       Some \<lparr>content = JSON_stringify credentials, ttl = Some 3600\<rparr>"
    using restartIdleTTL_only_idle_ttl [OF tuned_instance b', of "''u1''" 600] c
    by (simp add: p tuned_logged_in_store)
  show ?thesis
    using first second b b' c by simp
qed

text \<open>
  C9. When the idle marker of \<open>sid\<close> is absent (never set, expired or deleted),
  \<^verbatim>\<open>destroy(sid)\<close> raises an error: it issues the one \<^verbatim>\<open>GET\<close> of the idle marker and
  no \<^verbatim>\<open>DEL\<close>, and the store is left as it was. When that \<^verbatim>\<open>GET\<close> is answered,
  \<^verbatim>\<open>get\<close> returns null and the error is the TypeError of destructuring null.
\<close>

theorem destroy_without_idle_marker:
  assumes "store w (prefixSessionIdle m @ sid) = None"
  shows "isl (fst (destroy m sid w))
       \<and> store (snd (destroy m sid w)) = store w
       \<and> trace (snd (destroy m sid w)) = trace w @ [GET (prefixSessionIdle m @ sid)]
       \<and> (\<not> down w \<longrightarrow> fst (get m sid w) = Inr JNull \<and> fst (destroy m sid w) = Inl TypeError)"
  using assms by (rule destroy_absent)

theorem destroy_without_idle_marker_witness:
  "store idle_expired (prefixSessionIdle manager @ ''u1'') = None
   \<and> store (snd (destroy manager ''u1'' idle_expired)) ''session:u1'' =
       Some \<lparr>content = JSON_stringify credentials, ttl = Some 86279\<rparr>
   \<and> fst (destroy manager ''u1'' idle_expired) = Inl TypeError"
proof -
  have a: "store idle_expired (prefixSessionIdle manager @ ''u1'') = None"
    by (simp add: manager_fields idle_expired_store)
  have d: "\<not> down idle_expired"
    by (simp add: down_def idle_expired_outage)
  show ?thesis
    using destroy_without_idle_marker [OF a] a d by (simp add: idle_expired_store)
qed

text \<open>
  C10. When the idle marker of \<open>sid\<close> is present and its record key is absent,
  \<^verbatim>\<open>get(sid)\<close> issues both reads and returns null without raising: the null of the
  missing record is parsed as the text \<^verbatim>\<open>null\<close>.
\<close>

theorem get_missing_record:
  assumes "store w (prefixSessionIdle m @ sid) \<noteq> None"
      and "store w (prefixSession m @ sid) = None"
      and "reliable w"
  shows "fst (get m sid w) = Inr JNull
       \<and> trace (snd (get m sid w)) =
           trace w @ [GET (prefixSessionIdle m @ sid), GET (prefixSession m @ sid)]"
proof -
  obtain i where i: "store w (prefixSessionIdle m @ sid) = Some i"
    using assms(1) by auto
  have "JSON_parse ''null'' = Inr JNull"
    by code_simp
  then show ?thesis
    using assms(2) i reliable_not_down [OF assms(3)]
    by (simp add: get_present [OF assms(3) i] get_trace)
qed

theorem get_missing_record_witness:
  "store record_lost ''session-idle:u1'' \<noteq> None
   \<and> store record_lost ''session:u1'' = None
   \<and> reliable record_lost
   \<and> fst (get manager ''u1'' record_lost) = Inr JNull"
proof -
  have a: "store record_lost (prefixSessionIdle manager @ ''u1'') \<noteq> None"
    by (simp add: record_lost_def manager_fields logged_in_store)
  have b: "store record_lost (prefixSession manager @ ''u1'') = None"
    by (simp add: record_lost_def manager_fields)
  have c: "reliable record_lost"
    by (simp add: record_lost_def logged_in_def reliable_def fresh_def)
  show ?thesis
    using get_missing_record [OF a b c] a b c by (simp add: manager_fields)
qed

end
